theory Spec2Isabelle
  imports Complex_Main "HOL-Library.Log_Nat"
begin

text \<open>
  A model of the fixture generators in \<open>scripts/\<close>: \<open>constants.py\<close>, \<open>timestamps.py\<close>,
  \<open>order_ids.py\<close>, \<open>transfer_ids.py\<close> and \<open>closed_orders.py\<close>. Floats are computed exactly
  as Python computes them, the hidden state of the random module is passed explicitly, and
  an exception of the standard library is a value \<open>Inl e\<close> of the result. The definitions
  come first, then the facts they need, then the properties of the generators.
\<close>

section \<open>Python floats\<close>

text \<open>
  A Python \<open>float\<close> is an IEEE 754 binary64 number. It is modelled by the rational number
  it denotes. An arithmetic operation computes the exact result and rounds it to the nearest
  number with a 53-bit significand, ties going to the even significand. The exponent is not
  bounded: the generators below only handle magnitudes between \<open>10\<^sup>-\<^sup>4\<^sup>0\<close> and \<open>10\<^sup>1\<^sup>2\<close>,
  far from the overflow and subnormal ranges of binary64, so infinities, NaN and gradual
  underflow never arise and are left out.
\<close>

definition round_half_even :: "rat \<Rightarrow> int" where
  "round_half_even x =
     (let n = \<lfloor>x\<rfloor>; d = x - of_int n
      in if d < 1 / 2 then n else if 1 / 2 < d then n + 1 else if even n then n else n + 1)"

definition ilog2 :: "rat \<Rightarrow> int" where
  \<comment> \<open>\<open>\<lfloor>log\<^sub>2 \<bar>x\<bar>\<rfloor>\<close> for \<open>x \<noteq> 0\<close>, from the bit lengths of numerator and denominator.\<close>
  "ilog2 x =
     (let (p, q) = quotient_of \<bar>x\<bar>; d = bitlen p - bitlen q
      in if of_int q * (2::rat) powi d \<le> of_int p then d else d - 1)"

definition round_double :: "rat \<Rightarrow> rat" where
  "round_double x =
     (if x = 0 then 0
      else let u = 2 powi (ilog2 x - 52) in of_int (round_half_even (x / u)) * u)"

definition is_double :: "rat \<Rightarrow> bool" where
  "is_double x \<longleftrightarrow> round_double x = x"

definition float_add :: "rat \<Rightarrow> rat \<Rightarrow> rat" where
  "float_add a b = round_double (a + b)"

definition float_sub :: "rat \<Rightarrow> rat \<Rightarrow> rat" where
  "float_sub a b = round_double (a - b)"

definition float_mul :: "rat \<Rightarrow> rat \<Rightarrow> rat" where
  "float_mul a b = round_double (a * b)"

definition float_div :: "rat \<Rightarrow> rat \<Rightarrow> rat" where
  "float_div a b = round_double (a / b)"

definition float_of_int :: "int \<Rightarrow> rat" where
  \<comment> \<open>Python converts an \<open>int\<close> operand of a mixed operation to the nearest float.\<close>
  "float_of_int n = round_double (of_int n)"

section \<open>The process-wide random source\<close>

text \<open>
  The generators draw from the module \<open>random\<close> of Python's standard library, whose hidden
  state is process-wide. The state is passed explicitly here: a source is given by the state
  that \<open>random.seed(a)\<close> installs and by its two primitive draws, each returning the drawn
  number and the next state. The generator behind them (the Mersenne Twister in CPython) is
  not part of the repository and is left arbitrary: \<open>rs_bits53\<close> and \<open>rs_below\<close> are any
  integer functions of the state. \<open>random()\<close> keeps 53 bits of the first and divides them
  by \<open>2\<^sup>5\<^sup>3\<close>; \<open>_randbelow(n)\<close> reduces the second to a number below \<open>n\<close>.
\<close>

record 's random_source =
  rs_seed :: "int \<Rightarrow> 's"
  rs_bits53 :: "'s \<Rightarrow> int \<times> 's"
  rs_below :: "nat \<Rightarrow> 's \<Rightarrow> int \<times> 's"

datatype py_error = ValueError | IndexError | OverflowError | OSError

definition seed :: "'s random_source \<Rightarrow> int \<Rightarrow> 's \<Rightarrow> 's" where
  \<comment> \<open>\<open>random.seed(a)\<close>: the state after it depends on \<open>a\<close> alone.\<close>
  "seed R a s = rs_seed R a"

definition random :: "'s random_source \<Rightarrow> 's \<Rightarrow> rat \<times> 's" where
  "random R s = (let (k, s') = rs_bits53 R s in (of_int (k mod 2 ^ 53) / 2 ^ 53, s'))"

definition randbelow :: "'s random_source \<Rightarrow> nat \<Rightarrow> 's \<Rightarrow> nat \<times> 's" where
  "randbelow R n s = (let (k, s') = rs_below R n s in (nat (k mod int n), s'))"

definition uniform :: "'s random_source \<Rightarrow> rat \<Rightarrow> rat \<Rightarrow> 's \<Rightarrow> rat \<times> 's" where
  \<comment> \<open>\<open>a + (b - a) * self.random()\<close>\<close>
  "uniform R a b s =
     (let (r, s') = random R s in (float_add a (float_mul (float_sub b a) r), s'))"

definition randint :: "'s random_source \<Rightarrow> int \<Rightarrow> int \<Rightarrow> 's \<Rightarrow> py_error + int \<times> 's" where
  \<comment> \<open>\<open>randrange(a, b + 1)\<close>: an empty range raises \<open>ValueError\<close>.\<close>
  "randint R a b s =
     (if b + 1 - a \<le> 0 then Inl ValueError
      else let (k, s') = randbelow R (nat (b + 1 - a)) s in Inr (a + int k, s'))"

definition choice :: "'s random_source \<Rightarrow> 'a list \<Rightarrow> 's \<Rightarrow> py_error + 'a \<times> 's" where
  \<comment> \<open>\<open>seq[self._randbelow(len(seq))]\<close>: an empty sequence raises \<open>IndexError\<close>.\<close>
  "choice R seq s =
     (if seq = [] then Inl IndexError
      else let (k, s') = randbelow R (length seq) s in Inr (seq ! k, s'))"

fun choices :: "'s random_source \<Rightarrow> 'a list \<Rightarrow> nat \<Rightarrow> 's \<Rightarrow> py_error + 'a list \<times> 's" where
  \<comment> \<open>\<open>[population[floor(random() * n)] for i in _repeat(None, k)]\<close> with
     \<open>n = len(population) + 0.0\<close>\<close>
  "choices R population 0 s = Inr ([], s)"
| "choices R population (Suc k) s =
     (let (r, s') = random R s;
          i = nat \<lfloor>float_mul r (float_of_int (int (length population)))\<rfloor>
      in if i < length population
         then (case choices R population k s' of
                 Inl e \<Rightarrow> Inl e
               | Inr (xs, s'') \<Rightarrow> Inr (population ! i # xs, s''))
         else Inl IndexError)"

section \<open>constants.py\<close>

definition UPPER_ALPHA_NUMERIC :: string where
  "UPPER_ALPHA_NUMERIC = ''ABCDEFGHIJKLMNOPQRSTUVWXYZ'' @ ''0123456789''"

definition ALL_ALPHA_NUMERIC :: string where
  "ALL_ALPHA_NUMERIC =
     ''ABCDEFGHIJKLMNOPQRSTUVWXYZ'' @ ''abcdefghijklmnopqrstuvwxyz'' @ ''0123456789''"

definition VOLUME_MIN :: rat where
  "VOLUME_MIN = round_double (1 / 10)"

definition VOLUME_MAX :: rat where
  "VOLUME_MAX = 1000"

definition PRICE_MIN :: rat where
  "PRICE_MIN = round_double (1 / 10000)"

definition PRICE_MAX :: rat where
  "PRICE_MAX = 50000"

definition OPEN_ORDER_STATUSES :: "string list" where
  "OPEN_ORDER_STATUSES = [''pending'', ''open'']"

definition OVER_ORDER_STATUSES :: "string list" where
  "OVER_ORDER_STATUSES = [''canceled'', ''closed'', ''expired'']"

definition ORDER_STATUSES :: "string list" where
  "ORDER_STATUSES = OPEN_ORDER_STATUSES @ OVER_ORDER_STATUSES"

section \<open>datetime\<close>

text \<open>
  The datetimes of the scripts are naive: they denote local time. A datetime is modelled by
  the instant it denotes in the zone of the process, as whole seconds since the epoch and
  microseconds.

  The zone of the process enters in two places, and is a parameter of the model. First,
  \<open>datetime(2020, 1, 1)\<close> is local midnight: the instant is second 1577836800, which is
  2020-01-01T00:00:00Z, less the offset of the zone on that date, and likewise for
  \<open>datetime(2024, 1, 1)\<close> with second 1704067200 and the offset on that date. The two offsets
  are any integers, brought into the range that an offset has, strictly between minus and
  plus 24 hours. Second, \<open>timestamp()\<close> raises on some datetimes (on \<open>datetime.min\<close> in
  every zone, for one): it looks the local time up one day before or after, and fails when
  the zone or the platform has no time there. On which datetimes it raises, and what, is
  left to the zone, except between 1971 and 2037, the range of a 32-bit \<open>time_t\<close> less a
  margin, where every platform converts.
\<close>

record datetime =
  posix_seconds :: int
  microsecond :: int

record zone =
  zone_offset_2020 :: int
  zone_offset_2024 :: int
  zone_timestamp_error :: "datetime \<Rightarrow> py_error option"

definition utcoffset :: "int \<Rightarrow> int" where
  "utcoffset raw = max (- 86399) (min 86399 raw)"

definition always_converts :: "datetime \<Rightarrow> bool" where
  \<comment> \<open>from 1971-01-01T00:00:00Z to 2038-01-01T00:00:00Z\<close>
  "always_converts d \<longleftrightarrow> 31536000 \<le> posix_seconds d \<and> posix_seconds d \<le> 2145916800"

definition timestamp_value :: "datetime \<Rightarrow> rat" where
  \<comment> \<open>\<open>seconds - epoch + microsecond / 1e6\<close>, in floats\<close>
  "timestamp_value d =
     float_add (float_of_int (posix_seconds d)) (float_div (of_int (microsecond d)) 1000000)"

definition timestamp :: "zone \<Rightarrow> datetime \<Rightarrow> py_error + rat" where
  "timestamp Z d =
     (if always_converts d then Inr (timestamp_value d)
      else case zone_timestamp_error Z d of
             None \<Rightarrow> Inr (timestamp_value d)
           | Some e \<Rightarrow> Inl e)"

definition fromtimestamp :: "rat \<Rightarrow> datetime" where
  \<comment> \<open>\<open>frac, t = modf(t); us = round(frac * 1e6)\<close>, then the carry into the seconds\<close>
  "fromtimestamp t =
     (let ip = (if 0 \<le> t then \<lfloor>t\<rfloor> else \<lceil>t\<rceil>);
          frac = t - of_int ip;
          us = round_half_even (float_mul frac 1000000)
      in if 1000000 \<le> us then \<lparr>posix_seconds = ip + 1, microsecond = us - 1000000\<rparr>
         else if us < 0 then \<lparr>posix_seconds = ip - 1, microsecond = us + 1000000\<rparr>
         else \<lparr>posix_seconds = ip, microsecond = us\<rparr>)"

definition valid_datetime :: "datetime \<Rightarrow> bool" where
  \<comment> \<open>Python's datetimes lie in the years 1 to 9999, less than \<open>2\<^sup>3\<^sup>8\<close> seconds from the epoch;
     any second count that a float holds exactly will do here.\<close>
  "valid_datetime d \<longleftrightarrow>
     \<bar>posix_seconds d\<bar> \<le> 2 ^ 53 \<and> 0 \<le> microsecond d \<and> microsecond d < 1000000"

definition datetime_le :: "datetime \<Rightarrow> datetime \<Rightarrow> bool" where
  "datetime_le a b \<longleftrightarrow>
     posix_seconds a < posix_seconds b
     \<or> posix_seconds a = posix_seconds b \<and> microsecond a \<le> microsecond b"

definition START :: "zone \<Rightarrow> datetime" where
  "START Z = \<lparr>posix_seconds = 1577836800 - utcoffset (zone_offset_2020 Z), microsecond = 0\<rparr>"

definition END :: "zone \<Rightarrow> datetime" where
  "END Z = \<lparr>posix_seconds = 1704067200 - utcoffset (zone_offset_2024 Z), microsecond = 0\<rparr>"

section \<open>timestamps.py\<close>

text \<open>
  \<open>end.timestamp()\<close> is evaluated first, then \<open>start.timestamp()\<close>, then \<open>random()\<close>, and
  \<open>start.timestamp()\<close> once more in the \<open>return\<close>; an exception of any of them leaves the
  function, and no number is drawn when one of the first two raises.
\<close>

definition gen_random_timestamp ::
  "zone \<Rightarrow> 's random_source \<Rightarrow> datetime \<Rightarrow> datetime \<Rightarrow> 's \<Rightarrow> py_error + rat \<times> 's" where
  "gen_random_timestamp Z R start end s =
     (case timestamp Z end of
        Inl e \<Rightarrow> Inl e
      | Inr te \<Rightarrow>
          (case timestamp Z start of
             Inl e \<Rightarrow> Inl e
           | Inr ts \<Rightarrow>
               (let diff = float_sub te ts;
                    (r, s') = random R s;
                    rand = float_mul r diff
                in case timestamp Z start of
                     Inl e \<Rightarrow> Inl e
                   | Inr ts' \<Rightarrow> Inr (float_add ts' rand, s'))))"

section \<open>order_ids.py\<close>

definition gen_segment :: "'s random_source \<Rightarrow> nat \<Rightarrow> 's \<Rightarrow> py_error + string \<times> 's" where
  \<comment> \<open>\<open>"".join(choices(UPPER_ALPHA_NUMERIC, k=n))\<close>\<close>
  "gen_segment R n s = choices R UPPER_ALPHA_NUMERIC n s"

definition gen_order_id :: "'s random_source \<Rightarrow> 's \<Rightarrow> py_error + string \<times> 's" where
  "gen_order_id R s =
     (case gen_segment R 6 s of
        Inl e \<Rightarrow> Inl e
      | Inr (a, s1) \<Rightarrow>
          (case gen_segment R 5 s1 of
             Inl e \<Rightarrow> Inl e
           | Inr (b, s2) \<Rightarrow>
               (case gen_segment R 6 s2 of
                  Inl e \<Rightarrow> Inl e
                | Inr (c, s3) \<Rightarrow> Inr (a @ ''-'' @ b @ ''-'' @ c, s3))))"

fun gen_random_kraken_identifiers ::
  "'s random_source \<Rightarrow> nat \<Rightarrow> 's \<Rightarrow> py_error + string list \<times> 's" where
  "gen_random_kraken_identifiers R 0 s = Inr ([], s)"
| "gen_random_kraken_identifiers R (Suc n) s =
     (case gen_order_id R s of
        Inl e \<Rightarrow> Inl e
      | Inr (x, s') \<Rightarrow>
          (case gen_random_kraken_identifiers R n s' of
             Inl e \<Rightarrow> Inl e
           | Inr (xs, s'') \<Rightarrow> Inr (x # xs, s'')))"

section \<open>transfer_ids.py\<close>

definition gen_segment_transfer :: "'s random_source \<Rightarrow> nat \<Rightarrow> 's \<Rightarrow> py_error + string \<times> 's" where
  \<comment> \<open>the \<open>gen_segment\<close> of transfer_ids.py: \<open>"".join(choices(ALL_ALPHA_NUMERIC, k=n))\<close>\<close>
  "gen_segment_transfer R n s = choices R ALL_ALPHA_NUMERIC n s"

fun gen_random_kraken_transfer_identifiers ::
  "'s random_source \<Rightarrow> nat \<Rightarrow> 's \<Rightarrow> py_error + string list \<times> 's" where
  "gen_random_kraken_transfer_identifiers R 0 s = Inr ([], s)"
| "gen_random_kraken_transfer_identifiers R (Suc n) s =
     (case gen_segment_transfer R 7 s of
        Inl e \<Rightarrow> Inl e
      | Inr (a, s1) \<Rightarrow>
          (case gen_segment_transfer R 22 s1 of
             Inl e \<Rightarrow> Inl e
           | Inr (b, s2) \<Rightarrow>
               (case gen_random_kraken_transfer_identifiers R n s2 of
                  Inl e \<Rightarrow> Inl e
                | Inr (xs, s3) \<Rightarrow> Inr ((a @ ''-'' @ b) # xs, s3))))"

section \<open>Fixed-point formatting\<close>

text \<open>
  \<open>format(x, "0.<p>f")\<close>: the zero flag pads nothing when no width follows it, and the
  presentation type \<open>f\<close> prints the exact value of the float rounded to \<open>p\<close> decimals, ties
  to even: the integer part, and for \<open>p > 0\<close> a point and exactly \<open>p\<close> digits.
\<close>

definition digit_char :: "int \<Rightarrow> char" where
  "digit_char d = ''0123456789'' ! nat d"

function str_nat :: "int \<Rightarrow> string" where
  \<comment> \<open>the decimal digits of a natural number\<close>
  "str_nat n = (if n < 10 then [digit_char n] else str_nat (n div 10) @ [digit_char (n mod 10)])"
  by pat_completeness auto
termination
  by (relation "measure nat") auto

declare str_nat.simps [simp del]

definition format :: "rat \<Rightarrow> nat \<Rightarrow> string" where
  "format x p =
     (let n = round_half_even (\<bar>x\<bar> * 10 ^ p);
          ip = str_nat (n div 10 ^ p);
          fp = str_nat (n mod 10 ^ p);
          body = (if p = 0 then ip else ip @ ''.'' @ replicate (p - length fp) (CHR ''0'') @ fp)
      in if x < 0 then ''-'' @ body else body)"

section \<open>closed_orders.py\<close>

record closed_order =
  refid :: string
  userref :: int
  status :: string
  reason :: "string option"
  opentm :: rat
  closetm :: rat
  starttm :: int
  expiretm :: int
  descr :: "(string \<times> string) list"
  vol :: string
  vol_exec :: string
  cost :: string
  fee :: string
  price :: string
  stopprice :: string
  limitprice :: string
  misc :: string
  oflags :: string
  trigger :: string

text \<open>
  \<open>gen_random_closed_order\<close> is modelled in three parts, so that the claims about numbers
  that the returned dictionary holds only as formatted strings can name them: the numeric
  local variables of lines 11 to 18, the dictionary literal of lines 25 to 45 as a function
  of the local variables it reads, and the function itself, which draws the numbers, the
  precision and the status in the order of the source and returns the dictionary.
  The format specification \<open>f"0.{decimals}f"\<close> is represented by its precision.
\<close>

record order_numbers =
  n_open :: rat
  n_end :: rat
  n_price :: rat
  n_volume :: rat
  n_executed_volume :: rat
  n_cost :: rat
  n_fee :: rat

definition closed_order_numbers ::
  "zone \<Rightarrow> 's random_source \<Rightarrow> 's \<Rightarrow> py_error + order_numbers \<times> 's" where
  "closed_order_numbers Z R s =
     (case gen_random_timestamp Z R (START Z) (END Z) s of
        Inl e \<Rightarrow> Inl e
      | Inr (open', s1) \<Rightarrow>
          (case gen_random_timestamp Z R (fromtimestamp open') (END Z) s1 of
             Inl e \<Rightarrow> Inl e
           | Inr (end, s2) \<Rightarrow>
               (let (price, s3) = uniform R PRICE_MIN PRICE_MAX s2;
                    (volume, s4) = uniform R VOLUME_MIN VOLUME_MAX s3;
                    (executed_volume, s5) = uniform R VOLUME_MIN volume s4;
                    cost = float_mul price executed_volume;
                    fee = float_mul (round_double (26 / 10000)) cost
                in Inr (\<lparr>n_open = open', n_end = end, n_price = price, n_volume = volume,
                         n_executed_volume = executed_volume, n_cost = cost, n_fee = fee\<rparr>,
                        s5))))"

definition closed_order_dict :: "order_numbers \<Rightarrow> nat \<Rightarrow> string \<Rightarrow> closed_order" where
  "closed_order_dict n decimal_formatter status' =
     \<lparr>refid = ''None'',
      userref = 1,
      status = status',
      reason = (if status' = ''canceled'' then Some ''User requested'' else None),
      opentm = n_open n,
      closetm = n_end n,
      starttm = 0,
      expiretm = 0,
      descr = [],
      vol = format (n_volume n) decimal_formatter,
      vol_exec = format (n_executed_volume n) decimal_formatter,
      cost = format (n_cost n) decimal_formatter,
      fee = format (n_fee n) decimal_formatter,
      price = format (n_price n) decimal_formatter,
      stopprice = ''0.00000'',
      limitprice = ''0.00000'',
      misc = [],
      oflags = ''fciq'',
      trigger = ''index''\<rparr>"

definition gen_random_closed_order ::
  "zone \<Rightarrow> 's random_source \<Rightarrow> 's \<Rightarrow> py_error + closed_order \<times> 's" where
  "gen_random_closed_order Z R s =
     (case closed_order_numbers Z R s of
        Inl e \<Rightarrow> Inl e
      | Inr (n, s5) \<Rightarrow>
          (case randint R 3 8 s5 of
             Inl e \<Rightarrow> Inl e
           | Inr (decimals, s6) \<Rightarrow>
               (case choice R OVER_ORDER_STATUSES s6 of
                  Inl e \<Rightarrow> Inl e
                | Inr (status', s7) \<Rightarrow>
                    Inr (closed_order_dict n (nat decimals) status', s7))))"

section \<open>The identifier pattern\<close>

text \<open>
  The pattern \<open>[A-Z0-9]{6}-[A-Z0-9]{5}-[A-Z0-9]{6}\<close>, spelled out: the class \<open>[A-Z0-9]\<close> by
  character codes, and the three segments by their positions in a string of length 19.
\<close>

definition upper_alnum :: "char \<Rightarrow> bool" where
  "upper_alnum c \<longleftrightarrow>
     (let n = (of_char c :: nat) in 65 \<le> n \<and> n \<le> 90 \<or> 48 \<le> n \<and> n \<le> 57)"

definition matches_order_id :: "string \<Rightarrow> bool" where
  "matches_order_id s \<longleftrightarrow>
     length s = 19
     \<and> list_all upper_alnum (take 6 s) \<and> s ! 6 = CHR ''-''
     \<and> list_all upper_alnum (take 5 (drop 7 s)) \<and> s ! 12 = CHR ''-''
     \<and> list_all upper_alnum (drop 13 s)"

section \<open>Reading formatted numbers\<close>

text \<open>
  What the claims say of the formatted strings: the number of digits after the decimal
  point, the number a decimal string denotes, and rounding to a number of decimals.
\<close>

definition is_digit :: "char \<Rightarrow> bool" where
  "is_digit c \<longleftrightarrow> (let n = (of_char c :: nat) in 48 \<le> n \<and> n \<le> 57)"

definition fraction_digits :: "string \<Rightarrow> nat option" where
  "fraction_digits s =
     (case dropWhile (\<lambda>c. c \<noteq> CHR ''.'') s of
        [] \<Rightarrow> None
      | point # fp \<Rightarrow> if list_all is_digit fp then Some (length fp) else None)"

definition digits_value :: "string \<Rightarrow> int" where
  "digits_value s = foldl (\<lambda>a c. 10 * a + (of_char c - 48)) 0 s"

definition decimal_value :: "string \<Rightarrow> rat" where
  "decimal_value s =
     (let ip = takeWhile (\<lambda>c. c \<noteq> CHR ''.'') s;
          fp = drop 1 (dropWhile (\<lambda>c. c \<noteq> CHR ''.'') s)
      in of_int (digits_value ip) + of_int (digits_value fp) / 10 ^ length fp)"

definition round_decimal :: "nat \<Rightarrow> rat \<Rightarrow> rat" where
  "round_decimal p x = of_int (round_half_even (x * 10 ^ p)) / 10 ^ p"

section \<open>Seeding before a call\<close>

definition seeded_run :: "'s random_source \<Rightarrow> int \<Rightarrow> ('s \<Rightarrow> 'a) \<Rightarrow> 's \<Rightarrow> 'a" where
  \<comment> \<open>\<open>random.seed(a)\<close> followed by a call of the generator, from the state \<open>s\<close> of the
     process-wide source\<close>
  "seeded_run R a gen s = gen (seed R a s)"

definition returned :: "py_error + 'a \<times> 's \<Rightarrow> py_error + 'a" where
  \<comment> \<open>what the caller of a generator sees: the value returned, or the exception\<close>
  "returned x = map_sum id fst x"

definition same_draws ::
  "'s random_source \<Rightarrow> 't random_source \<Rightarrow> ('s \<Rightarrow> 't \<Rightarrow> bool) \<Rightarrow> bool" where
  \<comment> \<open>from related states the two sources draw the same numbers and reach related states\<close>
  "same_draws R1 R2 rel \<longleftrightarrow>
     (\<forall>s t. rel s t \<longrightarrow>
        fst (random R1 s) = fst (random R2 t) \<and> rel (snd (random R1 s)) (snd (random R2 t)))
     \<and> (\<forall>n s t. rel s t \<longrightarrow>
        fst (randbelow R1 n s) = fst (randbelow R2 n t)
        \<and> rel (snd (randbelow R1 n s)) (snd (randbelow R2 n t)))"

section \<open>A replaying random source and fixed-offset zones\<close>

text \<open>
  A concrete source for running the generators: its state is the list of the numbers still
  to be drawn, and an exhausted list draws zeros. Seeding installs a list made from the seed.
\<close>

definition replay :: "int list random_source" where
  "replay =
     \<lparr>rs_seed = (\<lambda>a. [a]),
      rs_bits53 = (\<lambda>s. case s of [] \<Rightarrow> (0, []) | k # t \<Rightarrow> (k, t)),
      rs_below = (\<lambda>n s. case s of [] \<Rightarrow> (0, []) | k # t \<Rightarrow> (k, t))\<rparr>"

text \<open>
  A zone with one offset at all times, as CPython converts in it. For the naive datetime
  whose fields read as second \<open>w\<close>, \<open>timestamp()\<close> takes the local time of \<open>w\<close> itself, which
  is \<open>w\<close> plus the offset, and the local time one day before the instant found, which is \<open>w\<close>
  less a day; it raises \<open>ValueError\<close> when one of them is outside the years 1 to 9999, which
  begin at second -62135596800 and end at second 253402300799.
\<close>

definition fixed_zone :: "int \<Rightarrow> zone" where
  "fixed_zone off =
     \<lparr>zone_offset_2020 = off,
      zone_offset_2024 = off,
      zone_timestamp_error =
        (\<lambda>d. let w = posix_seconds d + utcoffset off
             in if w + utcoffset off < - 62135596800 \<or> 253402300799 < w + utcoffset off
                   \<or> w - 86400 < - 62135596800
                then Some ValueError else None)\<rparr>"

definition utc :: zone where
  "utc = fixed_zone 0"

section \<open>Facts about float rounding\<close>

text \<open>
  Rounding to a float returns a number \<open>n * 2\<^sup>e\<close> with \<open>\<bar>n\<bar> \<le> 2\<^sup>5\<^sup>3\<close>, leaves such numbers
  unchanged, is nearest among them and hence monotone. The product of a float \<open>d > 0\<close>
  with a draw \<open>k / 2\<^sup>5\<^sup>3\<close> of \<open>random()\<close> rounds to a float strictly below \<open>d\<close>; this bounds
  \<open>a + (b - a) * random()\<close> by \<open>a\<close> and \<open>b\<close>.
\<close>

lemma pow2_add: "(2::rat) powi (a + b) = 2 powi a * 2 powi b"
  by (simp add: power_int_add)

lemma pow2_mono: "a \<le> b \<Longrightarrow> (2::rat) powi a \<le> 2 powi b"
  by (rule power_int_increasing) simp_all

lemma pow2_of_int: "0 \<le> e \<Longrightarrow> (2::rat) powi e = of_int (2 ^ nat e)"
  by (simp add: power_int_def)

lemma pow2_split: "a = b + c \<Longrightarrow> (2::rat) powi a = 2 powi b * 2 powi c"
  by (simp add: power_int_add)

lemma quotient_of_abs_pos:
  assumes "x \<noteq> 0" and "quotient_of \<bar>x\<bar> = (p, q)"
  shows "0 < p" and "0 < q" and "\<bar>x\<bar> = of_int p / of_int q"
proof -
  show q: "0 < q" using assms(2) by (rule quotient_of_denom_pos)
  show eq: "\<bar>x\<bar> = of_int p / of_int q" using assms(2) by (rule quotient_of_div)
  have "0 < \<bar>x\<bar>" using assms(1) by simp
  then have "0 < (of_int p :: rat) / of_int q" using eq by simp
  then show "0 < p" using q by (simp add: zero_less_divide_iff)
qed

lemma bitlen_bounds_rat:
  assumes "0 < p"
  shows "(2::rat) powi (bitlen p - 1) \<le> of_int p" and "of_int p < (2::rat) powi (bitlen p)"
proof -
  have b: "1 \<le> bitlen p" using assms by (simp add: bitlen_alt_def)
  from bitlen_bounds[OF assms]
  have lo: "2 ^ nat (bitlen p - 1) \<le> p" and hi: "p < 2 ^ nat (bitlen p)" by simp_all
  have "(2::rat) powi (bitlen p - 1) = of_int (2 ^ nat (bitlen p - 1))"
    using b by (intro pow2_of_int) simp
  also have "\<dots> \<le> of_int p" using lo by (simp only: of_int_le_iff)
  finally show "(2::rat) powi (bitlen p - 1) \<le> of_int p" .
  have "(of_int p :: rat) < of_int (2 ^ nat (bitlen p))" using hi by (simp only: of_int_less_iff)
  also have "\<dots> = (2::rat) powi (bitlen p)"
    using b by (subst pow2_of_int) simp_all
  finally show "of_int p < (2::rat) powi (bitlen p)" .
qed

lemma ilog2_bounds:
  assumes "x \<noteq> 0"
  shows "2 powi (ilog2 x) \<le> \<bar>x\<bar>" and "\<bar>x\<bar> < 2 powi (ilog2 x + 1)"
proof -
  obtain p q where pq: "quotient_of \<bar>x\<bar> = (p, q)" by (cases "quotient_of \<bar>x\<bar>")
  note f = quotient_of_abs_pos[OF assms pq]
  define d where "d = bitlen p - bitlen q"
  have q0: "0 < (of_int q :: rat)" using f(2) by simp
  have plo: "(2::rat) powi (bitlen p - 1) \<le> of_int p" and phi: "of_int p < (2::rat) powi (bitlen p)"
    using bitlen_bounds_rat[OF f(1)] by simp_all
  have qlo: "(2::rat) powi (bitlen q - 1) \<le> of_int q" and qhi: "of_int q < (2::rat) powi (bitlen q)"
    using bitlen_bounds_rat[OF f(2)] by simp_all
  have il: "ilog2 x = (if of_int q * (2::rat) powi d \<le> of_int p then d else d - 1)"
    by (simp add: ilog2_def pq d_def Let_def)
  have up: "of_int p < of_int q * (2::rat) powi (d + 1)"
  proof -
    have "(2::rat) powi (bitlen p) = 2 powi (bitlen q - 1) * 2 powi (d + 1)"
      by (simp add: d_def flip: pow2_add)
    also have "\<dots> \<le> of_int q * 2 powi (d + 1)"
      using qlo by (intro mult_right_mono) simp_all
    finally show ?thesis using phi by simp
  qed
  have low: "of_int q * (2::rat) powi (d - 1) < of_int p"
  proof -
    have "of_int q * (2::rat) powi (d - 1) < 2 powi (bitlen q) * 2 powi (d - 1)"
      using qhi by (intro mult_strict_right_mono) simp_all
    also have "\<dots> = 2 powi (bitlen p - 1)"
      by (simp add: d_def flip: pow2_add)
    finally show ?thesis using plo by simp
  qed
  show "2 powi (ilog2 x) \<le> \<bar>x\<bar>"
  proof (cases "of_int q * (2::rat) powi d \<le> of_int p")
    case True
    then show ?thesis using q0 by (simp add: il f(3) pos_le_divide_eq mult.commute)
  next
    case False
    then show ?thesis using q0 low by (simp add: il f(3) pos_le_divide_eq mult.commute)
  qed
  show "\<bar>x\<bar> < 2 powi (ilog2 x + 1)"
  proof (cases "of_int q * (2::rat) powi d \<le> of_int p")
    case True
    then show ?thesis using q0 up by (simp add: il f(3) pos_divide_less_eq mult.commute)
  next
    case False
    then show ?thesis using q0 by (simp add: il f(3) pos_divide_less_eq mult.commute)
  qed
qed

lemma round_half_even_cases:
  "round_half_even x = \<lfloor>x\<rfloor> \<and> x - of_int \<lfloor>x\<rfloor> \<le> 1 / 2
   \<or> round_half_even x = \<lfloor>x\<rfloor> + 1 \<and> 1 / 2 \<le> x - of_int \<lfloor>x\<rfloor>"
  by (simp add: round_half_even_def Let_def)

lemma round_half_even_nearest:
  "\<bar>x - of_int (round_half_even x)\<bar> \<le> \<bar>x - of_int m\<bar>"
proof -
  define n where "n = \<lfloor>x\<rfloor>"
  have fl: "of_int n \<le> x" "x < of_int n + 1" unfolding n_def by linarith+
  have r: "of_int (round_half_even x) = (of_int n :: rat) \<and> x - of_int n \<le> 1 / 2
     \<or> of_int (round_half_even x) = (of_int n :: rat) + 1 \<and> 1 / 2 \<le> x - of_int n"
    using round_half_even_cases[of x] unfolding n_def by auto
  consider "m \<le> n" | "n + 1 \<le> m" by linarith
  then show ?thesis
  proof cases
    case 1
    then have "(of_int m :: rat) \<le> of_int n" by (simp only: of_int_le_iff)
    then show ?thesis using fl r by linarith
  next
    case 2
    then have "(of_int (n + 1) :: rat) \<le> of_int m" by (simp only: of_int_le_iff)
    then have "(of_int n :: rat) + 1 \<le> of_int m" by simp
    then show ?thesis using fl r by linarith
  qed
qed

lemma round_half_even_of_int: "round_half_even (of_int n) = n"
  by (simp add: round_half_even_def)

lemma round_half_even_floor_ceiling:
  "\<lfloor>x\<rfloor> \<le> round_half_even x" "round_half_even x \<le> \<lceil>x\<rceil>"
proof -
  show "\<lfloor>x\<rfloor> \<le> round_half_even x"
    using round_half_even_cases[of x] by auto
  show "round_half_even x \<le> \<lceil>x\<rceil>"
  proof (cases "x = of_int \<lfloor>x\<rfloor>")
    case True
    then have "round_half_even x = \<lfloor>x\<rfloor>"
      by (metis round_half_even_of_int)
    then show ?thesis by (simp add: floor_le_ceiling)
  next
    case False
    then have "\<lceil>x\<rceil> = \<lfloor>x\<rfloor> + 1"
      by (metis ceiling_altdef)
    then show ?thesis using round_half_even_cases[of x] by auto
  qed
qed

lemma round_half_even_abs_le:
  assumes "\<bar>x\<bar> \<le> of_int b"
  shows "\<bar>round_half_even x\<bar> \<le> b"
proof -
  have "x \<le> of_int b" "- of_int b \<le> x" using assms by (auto simp: abs_if split: if_splits)
  then have "\<lceil>x\<rceil> \<le> b" "- b \<le> \<lfloor>x\<rfloor>"
    by (simp_all add: ceiling_le_iff le_floor_iff)
  then show ?thesis using round_half_even_floor_ceiling[of x] by linarith
qed

lemma scaled_round_nearest:
  assumes "0 < u"
  shows "\<bar>x - of_int (round_half_even (x / u)) * u\<bar> \<le> \<bar>x - of_int i * u\<bar>"
proof -
  have "\<bar>x / u - of_int (round_half_even (x / u))\<bar> \<le> \<bar>x / u - of_int i\<bar>"
    by (rule round_half_even_nearest)
  then have "\<bar>x / u - of_int (round_half_even (x / u))\<bar> * u \<le> \<bar>x / u - of_int i\<bar> * u"
    using assms by (intro mult_right_mono) simp_all
  moreover have "\<bar>x / u - of_int k\<bar> * u = \<bar>x - of_int k * u\<bar>" for k :: int
  proof -
    have "\<bar>x / u - of_int k\<bar> * u = \<bar>(x / u - of_int k) * u\<bar>"
      using assms by (simp add: abs_mult)
    also have "(x / u - of_int k) * u = x - of_int k * u"
      using assms by (simp add: field_simps)
    finally show ?thesis .
  qed
  ultimately show ?thesis by simp
qed

lemma round_double_nonzero:
  assumes "x \<noteq> 0"
  shows "round_double x = of_int (round_half_even (x / 2 powi (ilog2 x - 52))) * 2 powi (ilog2 x - 52)"
  using assms by (simp add: round_double_def Let_def)

lemma scaled_abs_bounds:
  assumes "x \<noteq> 0"
  shows "2 ^ 52 \<le> \<bar>x / 2 powi (ilog2 x - 52)\<bar>" and "\<bar>x / 2 powi (ilog2 x - 52)\<bar> < 2 ^ 53"
proof -
  let ?u = "(2::rat) powi (ilog2 x - 52)"
  have u: "0 < ?u" by simp
  have a: "\<bar>x / ?u\<bar> = \<bar>x\<bar> / ?u" by (simp add: abs_divide)
  have lo: "2 ^ 52 * ?u = 2 powi (ilog2 x)"
    using pow2_split[of "ilog2 x" 52 "ilog2 x - 52"] by simp
  have hi: "2 ^ 53 * ?u = 2 powi (ilog2 x + 1)"
    using pow2_split[of "ilog2 x + 1" 53 "ilog2 x - 52"] by simp
  show "2 ^ 52 \<le> \<bar>x / ?u\<bar>"
    unfolding a using ilog2_bounds(1)[OF assms] lo u by (simp add: pos_le_divide_eq)
  show "\<bar>x / ?u\<bar> < 2 ^ 53"
    unfolding a using ilog2_bounds(2)[OF assms] hi u by (simp add: pos_divide_less_eq)
qed

lemma round_double_repr:
  "\<exists>n e. round_double x = of_int n * 2 powi e \<and> \<bar>n\<bar> \<le> 2 ^ 53"
proof (cases "x = 0")
  case True
  then have "round_double x = of_int 0 * 2 powi 0 \<and> \<bar>0::int\<bar> \<le> 2 ^ 53"
    by (simp add: round_double_def)
  then show ?thesis by blast
next
  case False
  let ?u = "(2::rat) powi (ilog2 x - 52)"
  have "\<bar>x / ?u\<bar> \<le> of_int (2 ^ 53)"
    using scaled_abs_bounds(2)[OF False] by simp
  then have "\<bar>round_half_even (x / ?u)\<bar> \<le> 2 ^ 53"
    by (rule round_half_even_abs_le)
  then show ?thesis using round_double_nonzero[OF False] by blast
qed

text \<open>A number \<open>m * 2\<^sup>j\<close> with \<open>\<bar>m\<bar> \<le> 2\<^sup>5\<^sup>3\<close> is on the grid of every exponent at or below its own.\<close>

lemma repr_abs_le:
  assumes "\<bar>m\<bar> \<le> 2 ^ 53"
  shows "\<bar>of_int m * (2::rat) powi j\<bar> \<le> 2 powi (j + 53)"
proof -
  have "\<bar>of_int m :: rat\<bar> = of_int \<bar>m\<bar>" by simp
  also have "\<dots> \<le> of_int (2 ^ 53)" using assms by (simp only: of_int_le_iff)
  finally have "\<bar>of_int m :: rat\<bar> \<le> 2 ^ 53" by simp
  then have "\<bar>of_int m :: rat\<bar> * 2 powi j \<le> 2 ^ 53 * 2 powi j"
    by (intro mult_right_mono) simp_all
  also have "\<dots> = 2 powi (j + 53)"
    using pow2_split[of "j + 53" 53 j] by simp
  finally show ?thesis by (simp add: abs_mult)
qed

lemma on_grid:
  assumes "e \<le> j"
  shows "of_int m * (2::rat) powi j = of_int (m * 2 ^ nat (j - e)) * 2 powi e"
proof -
  have "(2::rat) powi j = 2 powi (j - e) * 2 powi e"
    using pow2_split[of j "j - e" e] by simp
  also have "(2::rat) powi (j - e) = of_int (2 ^ nat (j - e))"
    using assms by (intro pow2_of_int) simp
  finally show ?thesis by simp
qed

lemma round_double_on_grid:
  assumes "x \<noteq> 0" and "x = of_int i * 2 powi (ilog2 x - 52)"
  shows "round_double x = x"
proof -
  let ?u = "(2::rat) powi (ilog2 x - 52)"
  have "x / ?u = of_int i" using assms(2) by (simp add: field_simps)
  then have "round_half_even (x / ?u) = i" by (simp add: round_half_even_of_int)
  then show ?thesis using round_double_nonzero[OF assms(1)] assms(2) by simp
qed

lemma round_double_of_repr:
  assumes "\<bar>m\<bar> \<le> 2 ^ 53"
  shows "round_double (of_int m * 2 powi j) = of_int m * 2 powi j"
proof (cases "of_int m * (2::rat) powi j = 0")
  case True
  then show ?thesis by (simp add: round_double_def)
next
  case False
  define x where "x = of_int m * (2::rat) powi j"
  have x0: "x \<noteq> 0" using False by (simp add: x_def)
  let ?e = "ilog2 x - 52"
  show ?thesis
  proof (cases "?e \<le> j")
    case True
    have "x = of_int (m * 2 ^ nat (j - ?e)) * 2 powi ?e"
      unfolding x_def by (rule on_grid[OF True[unfolded x_def]])
    then have "round_double x = x" by (rule round_double_on_grid[OF x0])
    then show ?thesis unfolding x_def .
  next
    case F: False
    then have "j + 53 \<le> ilog2 x" by simp
    then have "(2::rat) powi (j + 53) \<le> 2 powi (ilog2 x)" by (rule pow2_mono)
    moreover have "\<bar>x\<bar> \<le> 2 powi (j + 53)" unfolding x_def by (rule repr_abs_le[OF assms])
    moreover have "2 powi (ilog2 x) \<le> \<bar>x\<bar>" by (rule ilog2_bounds(1)[OF x0])
    ultimately have ax: "\<bar>x\<bar> = 2 powi (ilog2 x)" by linarith
    have sp: "(2::rat) powi (ilog2 x) = of_int (2 ^ 52) * 2 powi ?e"
      using pow2_split[of "ilog2 x" 52 ?e] by simp
    have "x = of_int (if 0 < x then 2 ^ 52 else - (2 ^ 52)) * 2 powi ?e"
      using ax sp x0 by (simp add: abs_if split: if_splits)
    then have "round_double x = x" by (rule round_double_on_grid[OF x0])
    then show ?thesis unfolding x_def .
  qed
qed

lemma round_double_idem: "round_double (round_double x) = round_double x"
proof -
  obtain n e where "round_double x = of_int n * 2 powi e" "\<bar>n\<bar> \<le> 2 ^ 53"
    using round_double_repr[of x] by blast
  then show ?thesis by (simp add: round_double_of_repr)
qed

lemma is_double_round_double: "is_double (round_double x)"
  by (simp add: is_double_def round_double_idem)

lemma is_double_repr: "\<bar>m\<bar> \<le> 2 ^ 53 \<Longrightarrow> is_double (of_int m * 2 powi j)"
  by (simp add: is_double_def round_double_of_repr)

lemma is_double_of_int: "\<bar>m\<bar> \<le> 2 ^ 53 \<Longrightarrow> is_double (of_int m)"
  using is_double_repr[of m 0] by simp

lemma round_double_fixed: "is_double x \<Longrightarrow> round_double x = x"
  by (simp add: is_double_def)

lemma float_of_int_exact: "\<bar>n\<bar> \<le> 2 ^ 53 \<Longrightarrow> float_of_int n = of_int n"
  using is_double_of_int[of n] by (simp add: float_of_int_def is_double_def)

lemma round_double_nearest_repr:
  assumes "\<bar>m\<bar> \<le> 2 ^ 53"
  shows "\<bar>x - round_double x\<bar> \<le> \<bar>x - of_int m * 2 powi j\<bar>"
proof (cases "x = 0")
  case True
  then show ?thesis by (simp add: round_double_def)
next
  case False
  let ?e = "ilog2 x - 52"
  let ?u = "(2::rat) powi ?e"
  have u: "0 < ?u" by simp
  have rd: "round_double x = of_int (round_half_even (x / ?u)) * ?u"
    by (rule round_double_nonzero[OF False])
  show ?thesis
  proof (cases "?e \<le> j")
    case True
    have eq: "of_int m * (2::rat) powi j = of_int (m * 2 ^ nat (j - ?e)) * ?u"
      by (rule on_grid[OF True])
    show ?thesis unfolding rd eq by (rule scaled_round_nearest[OF u])
  next
    case F: False
    define g :: int where "g = (if 0 < x then 2 ^ 52 else - (2 ^ 52))"
    have sp: "(2::rat) powi (ilog2 x) = 2 ^ 52 * ?u"
      using pow2_split[of "ilog2 x" 52 ?e] by simp
    have lo: "2 powi (ilog2 x) \<le> \<bar>x\<bar>" by (rule ilog2_bounds(1)[OF False])
    have "\<bar>x - of_int g * ?u\<bar> = \<bar>x\<bar> - 2 powi (ilog2 x)"
      using lo sp False by (simp add: g_def abs_if split: if_splits)
    moreover have "\<bar>x - round_double x\<bar> \<le> \<bar>x - of_int g * ?u\<bar>"
      unfolding rd by (rule scaled_round_nearest[OF u])
    moreover have "\<bar>of_int m * (2::rat) powi j\<bar> \<le> 2 powi (ilog2 x)"
    proof -
      from F have "j + 53 \<le> ilog2 x" by simp
      then have "(2::rat) powi (j + 53) \<le> 2 powi (ilog2 x)" by (rule pow2_mono)
      then show ?thesis using repr_abs_le[OF assms, of j] by linarith
    qed
    ultimately show ?thesis by linarith
  qed
qed

lemma round_double_nearest:
  assumes "is_double f"
  shows "\<bar>x - round_double x\<bar> \<le> \<bar>x - f\<bar>"
proof -
  obtain n e where "round_double f = of_int n * 2 powi e" "\<bar>n\<bar> \<le> 2 ^ 53"
    using round_double_repr[of f] by blast
  then show ?thesis
    using round_double_nearest_repr[of n x e] assms by (simp add: is_double_def)
qed

lemma round_double_mono:
  assumes "x \<le> y"
  shows "round_double x \<le> round_double y"
proof (cases "x = y")
  case True
  then show ?thesis by simp
next
  case False
  then have lt: "x < y" using assms by simp
  have "\<bar>x - round_double x\<bar> \<le> \<bar>x - round_double y\<bar>"
    by (rule round_double_nearest[OF is_double_round_double])
  moreover have "\<bar>y - round_double y\<bar> \<le> \<bar>y - round_double x\<bar>"
    by (rule round_double_nearest[OF is_double_round_double])
  ultimately show ?thesis using lt by linarith
qed

lemma round_double_nonneg: "0 \<le> x \<Longrightarrow> 0 \<le> round_double x"
  using round_double_mono[of 0 x] by (simp add: round_double_def)

lemma round_double_below:
  assumes d: "is_double d" and pos: "0 < d"
  shows "round_double (d * (1 - 1 / 2 ^ 53)) < d"
proof -
  define y where "y = d * (1 - 1 / 2 ^ 53)"
  define c where "c = d / 2 ^ 53"
  have y: "y = d - c" by (simp add: y_def c_def field_simps)
  have d0: "d \<noteq> 0" using pos by simp
  let ?e = "ilog2 d - 52"
  let ?u = "(2::rat) powi ?e"
  define n where "n = round_half_even (d / ?u)"
  have u: "0 < ?u" by simp
  have dn: "d = of_int n * ?u"
    using round_double_nonzero[OF d0] round_double_fixed[OF d] by (simp add: n_def)
  have lo: "2 ^ 52 * ?u \<le> d"
    using ilog2_bounds(1)[OF d0] pos pow2_split[of "ilog2 d" 52 ?e] by simp
  have hi: "d < 2 ^ 53 * ?u"
    using ilog2_bounds(2)[OF d0] pos pow2_split[of "ilog2 d + 1" 53 ?e] by simp
  have c_lt: "c < ?u" using hi by (simp add: c_def field_simps)
  show ?thesis
  proof (cases "d = 2 ^ 52 * ?u")
    case True
    have "?u = 2 * 2 powi (ilog2 d - 53)"
      using pow2_split[of ?e 1 "ilog2 d - 53"] by simp
    then have "y = of_int (2 ^ 53 - 1) * 2 powi (ilog2 d - 53)"
      using True by (simp add: y c_def field_simps)
    moreover have "\<bar>2 ^ 53 - 1 :: int\<bar> \<le> 2 ^ 53" by simp
    ultimately have "round_double y = y"
      using round_double_of_repr[of "2 ^ 53 - 1" "ilog2 d - 53"] by simp
    moreover have "y < d" using pos by (simp add: y c_def)
    ultimately show ?thesis by (simp add: y_def)
  next
    case False
    then have gt: "2 ^ 52 * ?u < d" using lo by simp
    then have c_gt: "?u < 2 * c" by (simp add: c_def field_simps)
    have "of_int n * ?u < of_int (2 ^ 53) * ?u" using hi dn by simp
    then have "(of_int n :: rat) < of_int (2 ^ 53)" using u by (simp only: mult_less_cancel_right_pos)
    then have n_hi: "n < 2 ^ 53" by (simp only: of_int_less_iff)
    have "of_int 0 * ?u < of_int n * ?u" using pos dn by simp
    then have "(of_int 0 :: rat) < of_int n" using u by (simp only: mult_less_cancel_right_pos)
    then have n_lo: "0 < n" by (simp only: of_int_less_iff)
    have "\<bar>n - 1\<bar> \<le> 2 ^ 53" using n_lo n_hi by simp
    then have "\<bar>y - round_double y\<bar> \<le> \<bar>y - of_int (n - 1) * ?u\<bar>"
      by (rule round_double_nearest_repr)
    moreover have "of_int (n - 1) * ?u = d - ?u" using dn by (simp add: algebra_simps)
    ultimately have "\<bar>y - round_double y\<bar> \<le> \<bar>y - (d - ?u)\<bar>" by simp
    then have "round_double y < d" using y c_lt c_gt by linarith
    then show ?thesis by (simp add: y_def)
  qed
qed

lemma round_double_scaled_below:
  assumes d: "is_double d" and pos: "0 < d" and k: "k < 2 ^ 53"
  shows "round_double (d * (of_nat k / 2 ^ 53)) < d"
proof -
  have "k \<le> 2 ^ 53 - 1" using k by simp
  then have "of_nat k \<le> (of_nat (2 ^ 53 - 1) :: rat)" by (simp only: of_nat_le_iff)
  then have "(of_nat k :: rat) \<le> 2 ^ 53 - 1" by simp
  then have "(of_nat k :: rat) / 2 ^ 53 \<le> 1 - 1 / 2 ^ 53" by (simp add: field_simps)
  then have "d * (of_nat k / 2 ^ 53) \<le> d * (1 - 1 / 2 ^ 53)"
    using pos by (intro mult_left_mono) simp_all
  then have "round_double (d * (of_nat k / 2 ^ 53)) \<le> round_double (d * (1 - 1 / 2 ^ 53))"
    by (rule round_double_mono)
  then show ?thesis using round_double_below[OF d pos] by linarith
qed

lemma interpolate_bounds:
  assumes a: "is_double a" and b: "is_double b" and le: "a \<le> b" and k: "k < 2 ^ 53"
  shows "a \<le> round_double (a + round_double (round_double (b - a) * (of_nat k / 2 ^ 53)))"
    and "round_double (a + round_double (round_double (b - a) * (of_nat k / 2 ^ 53))) \<le> b"
proof -
  define diff where "diff = round_double (b - a)"
  define rand where "rand = round_double (diff * (of_nat k / 2 ^ 53))"
  have diff0: "0 \<le> diff" unfolding diff_def using le by (intro round_double_nonneg) simp
  have rand0: "0 \<le> rand" unfolding rand_def using diff0 by (intro round_double_nonneg) simp
  have "round_double a \<le> round_double (a + rand)"
    using rand0 by (intro round_double_mono) simp
  then show "a \<le> round_double (a + round_double (round_double (b - a) * (of_nat k / 2 ^ 53)))"
    using round_double_fixed[OF a] by (simp add: rand_def diff_def)
  have "rand \<le> b - a"
  proof (cases "diff = 0")
    case True
    then show ?thesis using le by (simp add: rand_def round_double_def)
  next
    case False
    then have pos: "0 < diff" using diff0 by simp
    have "is_double diff" unfolding diff_def by (rule is_double_round_double)
    then have lt: "rand < diff" unfolding rand_def using pos k by (rule round_double_scaled_below)
    have "is_double rand" unfolding rand_def by (rule is_double_round_double)
    then have "\<bar>(b - a) - round_double (b - a)\<bar> \<le> \<bar>(b - a) - rand\<bar>"
      by (rule round_double_nearest)
    then show ?thesis using lt unfolding diff_def by linarith
  qed
  then have "round_double (a + rand) \<le> round_double b"
    by (intro round_double_mono) simp
  then show "round_double (a + round_double (round_double (b - a) * (of_nat k / 2 ^ 53))) \<le> b"
    using round_double_fixed[OF b] by (simp add: rand_def diff_def)
qed

lemma round_double_relative:
  "\<bar>round_double x - x\<bar> \<le> \<bar>x\<bar> / 2 ^ 53"
proof (cases "x = 0")
  case True
  then show ?thesis by (simp add: round_double_def)
next
  case False
  let ?u = "(2::rat) powi (ilog2 x - 52)"
  have u: "0 < ?u" by simp
  have "\<bar>x / ?u - of_int (round_half_even (x / ?u))\<bar> \<le> 1 / 2"
    using round_half_even_cases[of "x / ?u"] by (auto simp: abs_if split: if_splits) linarith+
  then have "\<bar>x / ?u - of_int (round_half_even (x / ?u))\<bar> * ?u \<le> 1 / 2 * ?u"
    using u by (intro mult_right_mono) simp_all
  moreover have "\<bar>x / ?u - of_int (round_half_even (x / ?u))\<bar> * ?u
      = \<bar>x - of_int (round_half_even (x / ?u)) * ?u\<bar>"
  proof -
    have "\<bar>x / ?u - of_int (round_half_even (x / ?u))\<bar> * ?u
        = \<bar>(x / ?u - of_int (round_half_even (x / ?u))) * ?u\<bar>"
      using u by (simp add: abs_mult)
    also have "(x / ?u - of_int (round_half_even (x / ?u))) * ?u
        = x - of_int (round_half_even (x / ?u)) * ?u"
      by (simp add: field_simps)
    finally show ?thesis .
  qed
  ultimately have e: "\<bar>x - round_double x\<bar> \<le> ?u / 2"
    by (simp add: round_double_nonzero[OF False])
  have "2 ^ 52 * ?u \<le> \<bar>x\<bar>"
    using ilog2_bounds(1)[OF False] pow2_split[of "ilog2 x" 52 "ilog2 x - 52"] by simp
  then have "?u / 2 \<le> \<bar>x\<bar> / 2 ^ 53" by (simp add: field_simps)
  then show ?thesis using e by (simp add: abs_minus_commute)
qed

section \<open>Facts about the library draws\<close>

lemma random_form: "\<exists>k < 2 ^ 53. fst (random R s) = of_nat k / 2 ^ 53"
proof -
  obtain k s' where ks: "rs_bits53 R s = (k, s')" by (cases "rs_bits53 R s")
  have m: "0 \<le> k mod 2 ^ 53" "k mod 2 ^ 53 < 2 ^ 53" by simp_all
  then have "nat (k mod 2 ^ 53) < nat (2 ^ 53)" by (simp only: nat_less_eq_zless)
  then have "nat (k mod 2 ^ 53) < 2 ^ 53" by simp
  moreover have "fst (random R s) = of_nat (nat (k mod 2 ^ 53)) / 2 ^ 53"
    using m(1) by (simp add: random_def ks)
  ultimately show ?thesis by blast
qed

lemma random_range: "0 \<le> fst (random R s)" "fst (random R s) < 1"
proof -
  obtain k :: nat where k: "k < 2 ^ 53" "fst (random R s) = of_nat k / 2 ^ 53"
    using random_form[of R s] by blast
  show "0 \<le> fst (random R s)" by (simp add: k(2))
  have "(of_nat k :: rat) < of_nat (2 ^ 53)" using k(1) by (simp only: of_nat_less_iff)
  then show "fst (random R s) < 1" by (simp add: k(2))
qed

lemma uniform_bounds:
  assumes "is_double a" and "is_double b" and "a \<le> b"
  shows "a \<le> fst (uniform R a b s)" and "fst (uniform R a b s) \<le> b"
proof -
  obtain k :: nat where k: "k < 2 ^ 53" "fst (random R s) = of_nat k / 2 ^ 53"
    using random_form[of R s] by blast
  have "fst (uniform R a b s)
      = round_double (a + round_double (round_double (b - a) * fst (random R s)))"
    by (simp add: uniform_def float_add_def float_mul_def float_sub_def split_beta)
  then have u: "fst (uniform R a b s)
      = round_double (a + round_double (round_double (b - a) * (of_nat k / 2 ^ 53)))"
    by (simp only: k(2))
  show "a \<le> fst (uniform R a b s)"
    unfolding u by (rule interpolate_bounds(1)[OF assms k(1)])
  show "fst (uniform R a b s) \<le> b"
    unfolding u by (rule interpolate_bounds(2)[OF assms k(1)])
qed

lemma is_double_uniform: "is_double (fst (uniform R a b s))"
  by (simp add: uniform_def float_add_def split_beta is_double_round_double)

lemma randbelow_less: "0 < n \<Longrightarrow> fst (randbelow R n s) < n"
proof -
  assume n: "0 < n"
  obtain k s' where ks: "rs_below R n s = (k, s')" by (cases "rs_below R n s")
  have "0 \<le> k mod int n" "k mod int n < int n" using n by simp_all
  then have "nat (k mod int n) < n" by linarith
  then show ?thesis by (simp add: randbelow_def ks)
qed

lemma randint_returns:
  assumes "a \<le> b"
  shows "\<exists>d s'. randint R a b s = Inr (d, s') \<and> a \<le> d \<and> d \<le> b"
proof -
  obtain k s' where ks: "randbelow R (nat (b + 1 - a)) s = (k, s')"
    by (cases "randbelow R (nat (b + 1 - a)) s")
  have "fst (randbelow R (nat (b + 1 - a)) s) < nat (b + 1 - a)"
    using assms by (intro randbelow_less) simp
  then have "k < nat (b + 1 - a)" by (simp add: ks)
  then have "a \<le> a + int k \<and> a + int k \<le> b" by linarith
  moreover have "randint R a b s = Inr (a + int k, s')"
    using assms by (simp add: randint_def ks)
  ultimately show ?thesis by blast
qed

lemma choice_returns:
  assumes "seq \<noteq> []"
  shows "\<exists>x s'. choice R seq s = Inr (x, s') \<and> x \<in> set seq"
proof -
  obtain k s' where ks: "randbelow R (length seq) s = (k, s')"
    by (cases "randbelow R (length seq) s")
  have "fst (randbelow R (length seq) s) < length seq"
    using assms by (intro randbelow_less) simp
  then have "k < length seq" by (simp add: ks)
  then have "seq ! k \<in> set seq" by simp
  moreover have "choice R seq s = Inr (seq ! k, s')"
    using assms by (simp add: choice_def ks)
  ultimately show ?thesis by blast
qed

lemma choices_index:
  assumes "0 < N" and "N \<le> 2 ^ 53"
  shows "nat \<lfloor>float_mul (fst (random R s)) (float_of_int (int N))\<rfloor> < N"
proof -
  obtain k :: nat where k: "k < 2 ^ 53" "fst (random R s) = of_nat k / 2 ^ 53"
    using random_form[of R s] by blast
  have "int N \<le> int (2 ^ 53)" using assms(2) by (simp only: of_nat_le_iff)
  then have b: "\<bar>int N\<bar> \<le> 2 ^ 53" by simp
  have f: "float_of_int (int N) = of_int (int N)" by (rule float_of_int_exact[OF b])
  have d: "is_double (of_int (int N))" by (rule is_double_of_int[OF b])
  have pos: "(0::rat) < of_int (int N)" using assms(1) by simp
  have "round_double (of_int (int N) * (of_nat k / 2 ^ 53)) < of_int (int N)"
    by (rule round_double_scaled_below[OF d pos k(1)])
  then have "float_mul (fst (random R s)) (float_of_int (int N)) < of_int (int N)"
    by (simp add: float_mul_def f k(2) mult.commute)
  then have "\<lfloor>float_mul (fst (random R s)) (float_of_int (int N))\<rfloor> < int N"
    by (simp only: floor_less_iff)
  then show ?thesis using assms(1) by linarith
qed

lemma choices_returns:
  assumes "population \<noteq> []" and "length population \<le> 2 ^ 53"
  shows "\<exists>xs s'. choices R population k s = Inr (xs, s') \<and> length xs = k
           \<and> set xs \<subseteq> set population"
proof (induction k arbitrary: s)
  case 0
  then show ?case by simp
next
  case (Suc k)
  obtain r s1 where r: "random R s = (r, s1)" by (cases "random R s")
  define i where "i = nat \<lfloor>float_mul r (float_of_int (int (length population)))\<rfloor>"
  have "0 < length population" using assms(1) by simp
  then have i: "i < length population"
    using choices_index[OF _ assms(2), of R s] by (simp add: i_def r)
  obtain xs s' where xs: "choices R population k s1 = Inr (xs, s')" "length xs = k"
      "set xs \<subseteq> set population"
    using Suc.IH[of s1] by blast
  have "choices R population (Suc k) s = Inr (population ! i # xs, s')"
    using i by (simp add: r xs(1) i_def[symmetric])
  then show ?case using xs(2,3) i by auto
qed

section \<open>Facts about formatting\<close>

lemma digit_cases:
  assumes "0 \<le> d" "d < 10"
  shows "d = 0 \<or> d = 1 \<or> d = 2 \<or> d = 3 \<or> d = 4 \<or> d = 5 \<or> d = 6 \<or> d = 7 \<or> d = 8 \<or> d = (9::int)"
  using assms by presburger

lemma digit_char_code:
  assumes "0 \<le> d" "d < 10"
  shows "(of_char (digit_char d) :: int) = 48 + d"
  using digit_cases[OF assms] by (auto simp: digit_char_def)

lemma is_digit_digit_char:
  assumes "d < 10"
  shows "is_digit (digit_char d)"
proof (cases "0 \<le> d")
  case True
  then show ?thesis using digit_cases[OF True assms] by (auto simp: digit_char_def is_digit_def)
next
  case False
  then have "nat d = 0" by simp
  then show ?thesis by (simp add: digit_char_def is_digit_def)
qed

lemma str_nat_digits: "list_all is_digit (str_nat n)"
proof (induction n rule: str_nat.induct)
  case (1 n)
  show ?case
  proof (cases "n < 10")
    case True
    then show ?thesis by (simp add: str_nat.simps[of n] is_digit_digit_char)
  next
    case False
    have "n mod 10 < 10" by simp
    then have "is_digit (digit_char (n mod 10))" by (rule is_digit_digit_char)
    then show ?thesis using False "1.IH" by (simp add: str_nat.simps[of n])
  qed
qed

lemma length_str_nat: "0 < p \<Longrightarrow> n < 10 ^ p \<Longrightarrow> length (str_nat n) \<le> p"
proof (induction n arbitrary: p rule: str_nat.induct)
  case (1 n)
  show ?case
  proof (cases "n < 10")
    case True
    then show ?thesis using "1.prems" by (simp add: str_nat.simps[of n])
  next
    case False
    obtain q where q: "p = Suc q" using "1.prems"(1) by (cases p) simp_all
    have "n < 10 * 10 ^ q" using "1.prems"(2) by (simp add: q)
    then have d: "n div 10 < 10 ^ q" by simp
    have "0 < q" using False "1.prems"(2) by (cases q) (simp_all add: q)
    then have "length (str_nat (n div 10)) \<le> q" using "1.IH"[OF False _ d] by simp
    then show ?thesis using False by (simp add: q str_nat.simps[of n])
  qed
qed

lemma digits_value_snoc: "digits_value (xs @ [c]) = 10 * digits_value xs + (of_char c - 48)"
  by (simp add: digits_value_def)

lemma digits_value_str_nat: "0 \<le> n \<Longrightarrow> digits_value (str_nat n) = n"
proof (induction n rule: str_nat.induct)
  case (1 n)
  show ?case
  proof (cases "n < 10")
    case True
    then have "str_nat n = [digit_char n]" by (simp add: str_nat.simps[of n])
    then show ?thesis using digit_char_code[OF "1.prems" True] by (simp add: digits_value_def)
  next
    case False
    have m: "0 \<le> n mod 10" "n mod 10 < 10" by simp_all
    have "0 \<le> n div 10" using "1.prems" by simp
    then have ih: "digits_value (str_nat (n div 10)) = n div 10" using "1.IH"[OF False] by simp
    have "str_nat n = str_nat (n div 10) @ [digit_char (n mod 10)]"
      using False by (simp add: str_nat.simps[of n])
    then have "digits_value (str_nat n) = 10 * (n div 10) + n mod 10"
      using digit_char_code[OF m] ih by (simp add: digits_value_snoc)
    then show ?thesis by simp
  qed
qed

lemma digits_value_zeros: "digits_value (replicate k (CHR ''0'') @ s) = digits_value s"
proof -
  have "foldl (\<lambda>a c. 10 * a + (of_char c - 48)) (0::int) (replicate k (CHR ''0'')) = 0"
    by (induction k) simp_all
  then show ?thesis by (simp add: digits_value_def)
qed

lemma not_point_digits: "list_all is_digit xs \<Longrightarrow> list_all (\<lambda>c. c \<noteq> CHR ''.'') xs"
  by (induction xs) (auto simp: is_digit_def)

lemma point_split:
  assumes "list_all (\<lambda>c. c \<noteq> CHR ''.'') pre"
  shows "dropWhile (\<lambda>c. c \<noteq> CHR ''.'') (pre @ ''.'' @ fp) = ''.'' @ fp"
    and "takeWhile (\<lambda>c. c \<noteq> CHR ''.'') (pre @ ''.'' @ fp) = pre"
  using assms by (induction pre) simp_all

lemma format_fraction:
  assumes "0 < p"
  shows "list_all is_digit (replicate (p - length (str_nat (n mod 10 ^ p))) (CHR ''0'') @ str_nat (n mod 10 ^ p))"
    and "length (replicate (p - length (str_nat (n mod 10 ^ p))) (CHR ''0'') @ str_nat (n mod 10 ^ p)) = p"
proof -
  have z: "is_digit (CHR ''0'')" by (simp add: is_digit_def)
  show "list_all is_digit (replicate (p - length (str_nat (n mod 10 ^ p))) (CHR ''0'') @ str_nat (n mod 10 ^ p))"
    using z str_nat_digits[of "n mod 10 ^ p"] by (auto simp: list_all_iff)
  have "n mod 10 ^ p < 10 ^ p" by simp
  then have "length (str_nat (n mod 10 ^ p)) \<le> p" by (rule length_str_nat[OF assms])
  then show "length (replicate (p - length (str_nat (n mod 10 ^ p))) (CHR ''0'') @ str_nat (n mod 10 ^ p)) = p"
    by simp
qed

lemma fraction_digits_format:
  assumes "0 < p"
  shows "fraction_digits (format x p) = Some p"
proof -
  define n where "n = round_half_even (\<bar>x\<bar> * 10 ^ p)"
  define ip where "ip = str_nat (n div 10 ^ p)"
  define fp where "fp = replicate (p - length (str_nat (n mod 10 ^ p))) (CHR ''0'') @ str_nat (n mod 10 ^ p)"
  define sign where "sign = (if x < 0 then ''-'' else [])"
  have f: "format x p = (sign @ ip) @ ''.'' @ fp"
    using assms by (simp add: format_def Let_def n_def ip_def fp_def sign_def)
  have fp: "list_all is_digit fp" "length fp = p"
    unfolding fp_def by (rule format_fraction[OF assms])+
  have "list_all (\<lambda>c. c \<noteq> CHR ''.'') ip"
    unfolding ip_def by (rule not_point_digits[OF str_nat_digits])
  then have "list_all (\<lambda>c. c \<noteq> CHR ''.'') (sign @ ip)" by (simp add: sign_def)
  then have "dropWhile (\<lambda>c. c \<noteq> CHR ''.'') (format x p) = ''.'' @ fp"
    unfolding f by (rule point_split(1))
  then show ?thesis using fp by (simp add: fraction_digits_def)
qed

lemma div_mod_fraction:
  assumes "0 < k"
  shows "(of_int (n div k) :: rat) + of_int (n mod k) / of_int k = of_int n / of_int k"
proof -
  have "n = k * (n div k) + n mod k" by simp
  then have "(of_int n :: rat) = of_int (k * (n div k) + n mod k)" by (simp only:)
  also have "\<dots> = of_int k * of_int (n div k) + of_int (n mod k)"
    by (simp only: of_int_add of_int_mult)
  finally have "(of_int n :: rat) = of_int k * of_int (n div k) + of_int (n mod k)" .
  then show ?thesis using assms by (simp add: field_simps)
qed

lemma decimal_value_format:
  assumes "0 \<le> x" and "0 < p"
  shows "decimal_value (format x p) = round_decimal p x"
proof -
  define n where "n = round_half_even (x * 10 ^ p)"
  define ip where "ip = str_nat (n div 10 ^ p)"
  define fp where "fp = replicate (p - length (str_nat (n mod 10 ^ p))) (CHR ''0'') @ str_nat (n mod 10 ^ p)"
  have f: "format x p = ip @ ''.'' @ fp"
    using assms by (simp add: format_def Let_def n_def ip_def fp_def)
  have "0 \<le> x * 10 ^ p" using assms(1) by simp
  then have "0 \<le> \<lfloor>x * 10 ^ p\<rfloor>" by simp
  then have "0 \<le> round_half_even (x * 10 ^ p)"
    using round_half_even_floor_ceiling(1)[of "x * 10 ^ p"] by linarith
  then have n0: "0 \<le> n" by (simp add: n_def)
  have len: "length fp = p" unfolding fp_def by (rule format_fraction(2)[OF assms(2)])
  have np: "list_all (\<lambda>c. c \<noteq> CHR ''.'') ip"
    unfolding ip_def by (rule not_point_digits[OF str_nat_digits])
  have d: "dropWhile (\<lambda>c. c \<noteq> CHR ''.'') (format x p) = ''.'' @ fp"
    and t: "takeWhile (\<lambda>c. c \<noteq> CHR ''.'') (format x p) = ip"
    unfolding f by (rule point_split[OF np])+
  have "0 \<le> n div 10 ^ p" using n0 by (simp add: pos_imp_zdiv_nonneg_iff)
  then have vi: "digits_value ip = n div 10 ^ p" unfolding ip_def by (rule digits_value_str_nat)
  have "0 \<le> n mod 10 ^ p" by simp
  then have vf: "digits_value fp = n mod 10 ^ p"
    unfolding fp_def by (simp add: digits_value_zeros digits_value_str_nat)
  have "decimal_value (format x p)
      = of_int (n div 10 ^ p) + of_int (n mod 10 ^ p) / of_int (10 ^ p)"
    by (simp add: decimal_value_def d t vi vf len)
  also have "\<dots> = of_int n / of_int (10 ^ p)"
    by (rule div_mod_fraction) simp
  finally show ?thesis by (simp add: round_decimal_def n_def)
qed

section \<open>Facts about datetimes\<close>

lemma is_double_timestamp_value: "is_double (timestamp_value d)"
  by (simp add: timestamp_value_def float_add_def is_double_round_double)

lemma timestamp_Inr: "timestamp Z d = Inr x \<Longrightarrow> x = timestamp_value d"
  by (auto simp: timestamp_def split: if_splits option.splits)

lemma timestamp_converts: "always_converts d \<Longrightarrow> timestamp Z d = Inr (timestamp_value d)"
  by (simp add: timestamp_def)

lemma microsecond_fraction:
  assumes "0 \<le> us" and "us < 1000000"
  shows "0 \<le> float_div (of_int us) 1000000" and "float_div (of_int us) 1000000 \<le> 1"
proof -
  have "(0::rat) \<le> of_int us / 1000000" using assms(1) by simp
  then show "0 \<le> float_div (of_int us) 1000000"
    unfolding float_div_def by (rule round_double_nonneg)
  have "us \<le> 1000000" using assms(2) by simp
  then have "(of_int us :: rat) \<le> of_int 1000000" by (simp only: of_int_le_iff)
  then have "(of_int us :: rat) / 1000000 \<le> 1" by simp
  then have "round_double (of_int us / 1000000) \<le> round_double 1" by (rule round_double_mono)
  moreover have "round_double 1 = 1"
    using round_double_of_repr[of 1 0] by simp
  ultimately show "float_div (of_int us) 1000000 \<le> 1" by (simp add: float_div_def)
qed

lemma timestamp_value_mono:
  assumes "datetime_le a b" and "valid_datetime a" and "valid_datetime b"
  shows "timestamp_value a \<le> timestamp_value b"
proof -
  have sa: "float_of_int (posix_seconds a) = of_int (posix_seconds a)"
    and sb: "float_of_int (posix_seconds b) = of_int (posix_seconds b)"
    using assms(2,3) by (simp_all add: valid_datetime_def float_of_int_exact)
  have fa: "float_div (of_int (microsecond a)) 1000000 \<le> 1"
    and fb: "0 \<le> float_div (of_int (microsecond b)) 1000000"
    using assms(2,3) by (simp_all add: valid_datetime_def microsecond_fraction)
  have "of_int (posix_seconds a) + float_div (of_int (microsecond a)) 1000000
      \<le> of_int (posix_seconds b) + float_div (of_int (microsecond b)) 1000000"
  proof (cases "posix_seconds a < posix_seconds b")
    case True
    then have "posix_seconds a + 1 \<le> posix_seconds b" by simp
    then have "(of_int (posix_seconds a + 1) :: rat) \<le> of_int (posix_seconds b)"
      by (simp only: of_int_le_iff)
    then have "(of_int (posix_seconds a) :: rat) + 1 \<le> of_int (posix_seconds b)" by simp
    then show ?thesis using fa fb by linarith
  next
    case False
    then have eq: "posix_seconds a = posix_seconds b" and le: "microsecond a \<le> microsecond b"
      using assms(1) by (simp_all add: datetime_le_def)
    have "(of_int (microsecond a) :: rat) / 1000000 \<le> of_int (microsecond b) / 1000000"
      using le by simp
    then have "float_div (of_int (microsecond a)) 1000000 \<le> float_div (of_int (microsecond b)) 1000000"
      unfolding float_div_def by (rule round_double_mono)
    then show ?thesis by (simp add: eq)
  qed
  then show ?thesis
    unfolding timestamp_value_def sa sb float_add_def by (rule round_double_mono)
qed

lemma timestamp_whole_second:
  assumes "\<bar>n\<bar> \<le> 2 ^ 53"
  shows "timestamp_value \<lparr>posix_seconds = n, microsecond = 0\<rparr> = of_int n"
proof -
  have "is_double (of_int n)" by (rule is_double_of_int[OF assms])
  then have "round_double (of_int n) = of_int n" by (rule round_double_fixed)
  then show ?thesis
    by (simp add: timestamp_value_def float_add_def float_div_def float_of_int_def round_double_def)
qed

lemma fromtimestamp_between:
  assumes lo: "of_int S \<le> t" and hi: "t \<le> of_int E" and S0: "0 \<le> S"
  shows "datetime_le \<lparr>posix_seconds = S, microsecond = 0\<rparr> (fromtimestamp t)"
    and "datetime_le (fromtimestamp t) \<lparr>posix_seconds = E, microsecond = 0\<rparr>"
    and "0 \<le> microsecond (fromtimestamp t)" and "microsecond (fromtimestamp t) < 1000000"
    and "S \<le> posix_seconds (fromtimestamp t)" and "posix_seconds (fromtimestamp t) \<le> E"
proof -
  define ip where "ip = \<lfloor>t\<rfloor>"
  define frac where "frac = t - of_int ip"
  define us where "us = round_half_even (float_mul frac 1000000)"
  have t0: "0 \<le> t" using lo S0 by (meson of_int_0_le_iff order_trans)
  have f: "fromtimestamp t =
      (if 1000000 \<le> us then \<lparr>posix_seconds = ip + 1, microsecond = us - 1000000\<rparr>
       else if us < 0 then \<lparr>posix_seconds = ip - 1, microsecond = us + 1000000\<rparr>
       else \<lparr>posix_seconds = ip, microsecond = us\<rparr>)"
    using t0 by (simp add: fromtimestamp_def Let_def ip_def frac_def us_def)
  have ipS: "S \<le> ip" unfolding ip_def using lo by (simp add: le_floor_iff)
  have ipE: "ip \<le> E" unfolding ip_def using hi by (simp add: floor_le_iff)
  have fr: "0 \<le> frac" "frac < 1" unfolding frac_def ip_def by linarith+
  have "round_double 0 \<le> round_double (frac * 1000000)"
    using fr(1) by (intro round_double_mono) simp
  then have y0: "0 \<le> float_mul frac 1000000" by (simp add: float_mul_def round_double_def)
  have "round_double (frac * 1000000) \<le> round_double (of_int 1000000 * 2 powi 0)"
    using fr(2) by (intro round_double_mono) simp
  also have "\<dots> = of_int 1000000 * 2 powi 0" by (rule round_double_of_repr) simp
  finally have y1: "float_mul frac 1000000 \<le> of_int 1000000" by (simp add: float_mul_def)
  have "\<lfloor>float_mul frac 1000000\<rfloor> \<le> us" "us \<le> \<lceil>float_mul frac 1000000\<rceil>"
    unfolding us_def by (rule round_half_even_floor_ceiling)+
  moreover have "0 \<le> \<lfloor>float_mul frac 1000000\<rfloor>" using y0 by simp
  moreover have "\<lceil>float_mul frac 1000000\<rceil> \<le> 1000000" using y1 by (simp only: ceiling_le_iff)
  ultimately have us: "0 \<le> us" "us \<le> 1000000" by linarith+
  have top: "us = 0" if "ip = E"
  proof -
    have "of_int E \<le> t" using that unfolding ip_def by (metis of_int_floor_le)
    then have "t = of_int E" using hi by simp
    then have "frac = 0" using that by (simp add: frac_def)
    then show ?thesis
      by (simp add: us_def float_mul_def round_double_def round_half_even_def)
  qed
  have c: "us = 0 \<or> ip + 1 \<le> E" using top ipE by (cases "ip = E") auto
  show "datetime_le \<lparr>posix_seconds = S, microsecond = 0\<rparr> (fromtimestamp t)"
    using ipS us by (auto simp: f datetime_le_def)
  show "datetime_le (fromtimestamp t) \<lparr>posix_seconds = E, microsecond = 0\<rparr>"
    using ipE us c by (auto simp: f datetime_le_def)
  show "0 \<le> microsecond (fromtimestamp t)" using us by (auto simp: f)
  show "microsecond (fromtimestamp t) < 1000000" using us by (auto simp: f)
  show "S \<le> posix_seconds (fromtimestamp t)" using ipS us by (auto simp: f)
  show "posix_seconds (fromtimestamp t) \<le> E" using ipE us c by (auto simp: f)
qed

lemma timestamp_mono:
  assumes "timestamp Z a = Inr x" and "timestamp Z b = Inr y"
    and "datetime_le a b" and "valid_datetime a" and "valid_datetime b"
  shows "x \<le> y"
  using timestamp_value_mono[OF assms(3,4,5)] timestamp_Inr[OF assms(1)] timestamp_Inr[OF assms(2)]
  by simp

section \<open>Facts about the timestamp and identifier generators\<close>

lemma gen_random_timestamp_value:
  assumes "timestamp Z start = Inr a" and "timestamp Z end = Inr b"
  shows "gen_random_timestamp Z R start end s
    = Inr (float_add a (float_mul (fst (random R s)) (float_sub b a)), snd (random R s))"
  by (simp add: gen_random_timestamp_def assms split_beta Let_def)

lemma gen_random_timestamp_bounds:
  assumes "timestamp Z start = Inr a" and "timestamp Z end = Inr b" and "a \<le> b"
  shows "\<exists>r s'. gen_random_timestamp Z R start end s = Inr (r, s') \<and> a \<le> r \<and> r \<le> b"
proof -
  obtain k :: nat where k: "k < 2 ^ 53" "fst (random R s) = of_nat k / 2 ^ 53"
    using random_form[of R s] by blast
  have da: "is_double a" and db: "is_double b"
    using timestamp_Inr[OF assms(1)] timestamp_Inr[OF assms(2)] is_double_timestamp_value
    by simp_all
  define r where "r = round_double (a + round_double (round_double (b - a) * (of_nat k / 2 ^ 53)))"
  have "float_add a (float_mul (fst (random R s)) (float_sub b a))
      = round_double (a + round_double (round_double (b - a) * fst (random R s)))"
    by (simp add: float_add_def float_mul_def float_sub_def mult.commute)
  then have "float_add a (float_mul (fst (random R s)) (float_sub b a)) = r"
    by (simp only: k(2) r_def)
  then have "gen_random_timestamp Z R start end s = Inr (r, snd (random R s))"
    using gen_random_timestamp_value[OF assms(1,2), of R s] by simp
  moreover have "a \<le> r" unfolding r_def by (rule interpolate_bounds(1)[OF da db assms(3) k(1)])
  moreover have "r \<le> b" unfolding r_def by (rule interpolate_bounds(2)[OF da db assms(3) k(1)])
  ultimately show ?thesis by blast
qed

lemma gen_random_timestamp_raises:
  "gen_random_timestamp Z R start end s = Inl e \<longleftrightarrow>
     timestamp Z end = Inl e \<or> (\<exists>b. timestamp Z end = Inr b) \<and> timestamp Z start = Inl e"
  by (auto simp: gen_random_timestamp_def split_beta Let_def split: sum.splits)

lemma upper_alnum_alphabet: "list_all upper_alnum UPPER_ALPHA_NUMERIC"
  by (simp add: UPPER_ALPHA_NUMERIC_def upper_alnum_def)

lemma gen_segment_returns:
  "\<exists>xs s'. gen_segment R n s = Inr (xs, s') \<and> length xs = n \<and> list_all upper_alnum xs"
proof -
  have ne: "UPPER_ALPHA_NUMERIC \<noteq> []" and le: "length UPPER_ALPHA_NUMERIC \<le> 2 ^ 53"
    by (simp_all add: UPPER_ALPHA_NUMERIC_def)
  obtain xs s' where xs: "choices R UPPER_ALPHA_NUMERIC n s = Inr (xs, s')" "length xs = n"
      "set xs \<subseteq> set UPPER_ALPHA_NUMERIC"
    using choices_returns[OF ne le, of R n s] by blast
  have "list_all upper_alnum xs"
    using xs(3) upper_alnum_alphabet by (auto simp: list_all_iff)
  then show ?thesis using xs(1,2) by (simp add: gen_segment_def)
qed

lemma matches_order_id_segments:
  assumes "length a = 6" "length b = 5" "length c = 6"
    and "list_all upper_alnum a" "list_all upper_alnum b" "list_all upper_alnum c"
  shows "matches_order_id (a @ ''-'' @ b @ ''-'' @ c)"
  using assms by (simp add: matches_order_id_def nth_append)

section \<open>Facts about the closed-order generator\<close>

lemma is_double_constants:
  "is_double PRICE_MIN" "is_double PRICE_MAX" "is_double VOLUME_MIN" "is_double VOLUME_MAX"
proof -
  show "is_double PRICE_MIN" unfolding PRICE_MIN_def by (rule is_double_round_double)
  show "is_double VOLUME_MIN" unfolding VOLUME_MIN_def by (rule is_double_round_double)
  have "is_double (of_int 50000)" by (rule is_double_of_int) simp
  then show "is_double PRICE_MAX" by (simp add: PRICE_MAX_def)
  have "is_double (of_int 1000)" by (rule is_double_of_int) simp
  then show "is_double VOLUME_MAX" by (simp add: VOLUME_MAX_def)
qed

lemma constants_ordered:
  "0 \<le> PRICE_MIN" "PRICE_MIN \<le> PRICE_MAX" "0 \<le> VOLUME_MIN" "VOLUME_MIN \<le> VOLUME_MAX"
proof -
  show "0 \<le> PRICE_MIN" unfolding PRICE_MIN_def by (rule round_double_nonneg) simp
  show "0 \<le> VOLUME_MIN" unfolding VOLUME_MIN_def by (rule round_double_nonneg) simp
  have "round_double (1 / 10000) \<le> round_double 50000" by (rule round_double_mono) simp
  then show "PRICE_MIN \<le> PRICE_MAX"
    using round_double_fixed[OF is_double_constants(2)] by (simp add: PRICE_MIN_def PRICE_MAX_def)
  have "round_double (1 / 10) \<le> round_double 1000" by (rule round_double_mono) simp
  then show "VOLUME_MIN \<le> VOLUME_MAX"
    using round_double_fixed[OF is_double_constants(4)] by (simp add: VOLUME_MIN_def VOLUME_MAX_def)
qed

lemma utcoffset_range: "- 86399 \<le> utcoffset raw" "utcoffset raw \<le> 86399"
  by (simp_all add: utcoffset_def)

lemma window_converts:
  assumes "posix_seconds (START Z) \<le> posix_seconds d" and "posix_seconds d \<le> posix_seconds (END Z)"
  shows "always_converts d"
  using assms utcoffset_range[of "zone_offset_2020 Z"] utcoffset_range[of "zone_offset_2024 Z"]
  by (simp add: always_converts_def START_def END_def)

lemma closed_order_numbers_returns:
  "\<exists>n s5. closed_order_numbers Z R s = Inr (n, s5)
     \<and> timestamp_value (START Z) \<le> n_open n \<and> n_open n \<le> timestamp_value (END Z)
     \<and> timestamp_value (fromtimestamp (n_open n)) \<le> n_end n
     \<and> timestamp_value (START Z) \<le> n_end n \<and> n_end n \<le> timestamp_value (END Z)
     \<and> PRICE_MIN \<le> n_price n \<and> n_price n \<le> PRICE_MAX
     \<and> VOLUME_MIN \<le> n_volume n \<and> n_volume n \<le> VOLUME_MAX
     \<and> VOLUME_MIN \<le> n_executed_volume n \<and> n_executed_volume n \<le> n_volume n
     \<and> n_cost n = float_mul (n_price n) (n_executed_volume n)
     \<and> n_fee n = float_mul (round_double (26 / 10000)) (n_cost n)"
proof -
  define S where "S = posix_seconds (START Z)"
  define E where "E = posix_seconds (END Z)"
  have st: "START Z = \<lparr>posix_seconds = S, microsecond = 0\<rparr>"
    and en: "END Z = \<lparr>posix_seconds = E, microsecond = 0\<rparr>"
    by (simp_all add: START_def END_def S_def E_def)
  have b: "\<bar>S\<bar> \<le> 2 ^ 53" "\<bar>E\<bar> \<le> 2 ^ 53" "0 \<le> S" "S \<le> E"
    using utcoffset_range[of "zone_offset_2020 Z"] utcoffset_range[of "zone_offset_2024 Z"]
    by (simp_all add: S_def E_def START_def END_def)
  have vS: "timestamp_value (START Z) = of_int S"
    unfolding st by (rule timestamp_whole_second[OF b(1)])
  have vE: "timestamp_value (END Z) = of_int E"
    unfolding en by (rule timestamp_whole_second[OF b(2)])
  have cS: "always_converts (START Z)" and cE: "always_converts (END Z)"
    using b(4) by (auto intro!: window_converts simp: S_def E_def)
  have tS: "timestamp Z (START Z) = Inr (of_int S)"
    using timestamp_converts[OF cS, of Z] by (simp add: vS)
  have tE: "timestamp Z (END Z) = Inr (of_int E)"
    using timestamp_converts[OF cE, of Z] by (simp add: vE)
  have le: "(of_int S :: rat) \<le> of_int E" using b(4) by simp
  obtain opn s1 where o: "gen_random_timestamp Z R (START Z) (END Z) s = Inr (opn, s1)"
    and olo: "of_int S \<le> opn" and ohi: "opn \<le> of_int E"
    using gen_random_timestamp_bounds[OF tS tE le, of R s] by blast
  define d where "d = fromtimestamp opn"
  note fb = fromtimestamp_between[OF olo ohi b(3)]
  have vd: "valid_datetime d"
    using fb(3,4,5,6) b(1,2,3) unfolding d_def valid_datetime_def by linarith
  have vvS: "valid_datetime (START Z)" and vvE: "valid_datetime (END Z)"
    using b by (simp_all add: st en valid_datetime_def)
  have cd: "always_converts d"
    unfolding d_def using fb(5,6) by (intro window_converts) (simp_all add: S_def E_def)
  have td: "timestamp Z d = Inr (timestamp_value d)" by (rule timestamp_converts[OF cd])
  have dlo: "timestamp_value (START Z) \<le> timestamp_value d"
    using fb(1) unfolding st[symmetric] d_def[symmetric] by (rule timestamp_value_mono[OF _ vvS vd])
  have dhi: "timestamp_value d \<le> of_int E"
    using timestamp_value_mono[OF _ vd vvE] fb(2) unfolding en[symmetric] d_def[symmetric]
    by (simp add: vE)
  obtain cls s2 where c: "gen_random_timestamp Z R d (END Z) s1 = Inr (cls, s2)"
    and clo: "timestamp_value d \<le> cls" and chi: "cls \<le> of_int E"
    using gen_random_timestamp_bounds[OF td tE dhi, of R s1] by blast
  define price where "price = fst (uniform R PRICE_MIN PRICE_MAX s2)"
  define s3 where "s3 = snd (uniform R PRICE_MIN PRICE_MAX s2)"
  define volume where "volume = fst (uniform R VOLUME_MIN VOLUME_MAX s3)"
  define s4 where "s4 = snd (uniform R VOLUME_MIN VOLUME_MAX s3)"
  define ev where "ev = fst (uniform R VOLUME_MIN volume s4)"
  define s5 where "s5 = snd (uniform R VOLUME_MIN volume s4)"
  define n where "n = \<lparr>n_open = opn, n_end = cls, n_price = price, n_volume = volume,
      n_executed_volume = ev, n_cost = float_mul price ev,
      n_fee = float_mul (round_double (26 / 10000)) (float_mul price ev)\<rparr>"
  have r: "closed_order_numbers Z R s = Inr (n, s5)"
    by (simp add: closed_order_numbers_def o c[unfolded d_def] split_beta Let_def n_def
        price_def s3_def volume_def s4_def ev_def s5_def)
  have plo: "PRICE_MIN \<le> price" and phi: "price \<le> PRICE_MAX"
    unfolding price_def
    by (rule uniform_bounds[OF is_double_constants(1,2) constants_ordered(2)])+
  have vlo: "VOLUME_MIN \<le> volume" and vhi: "volume \<le> VOLUME_MAX"
    unfolding volume_def
    by (rule uniform_bounds[OF is_double_constants(3,4) constants_ordered(4)])+
  have dv: "is_double volume" unfolding volume_def by (rule is_double_uniform)
  have elo: "VOLUME_MIN \<le> ev" and ehi: "ev \<le> volume"
    unfolding ev_def by (rule uniform_bounds[OF is_double_constants(3) dv vlo])+
  have "timestamp_value (START Z) \<le> n_open n" "n_open n \<le> timestamp_value (END Z)"
    "timestamp_value (fromtimestamp (n_open n)) \<le> n_end n"
    "timestamp_value (START Z) \<le> n_end n" "n_end n \<le> timestamp_value (END Z)"
    using olo ohi clo chi dlo by (simp_all add: n_def vS vE d_def)
  moreover have "PRICE_MIN \<le> n_price n" "n_price n \<le> PRICE_MAX"
    "VOLUME_MIN \<le> n_volume n" "n_volume n \<le> VOLUME_MAX"
    "VOLUME_MIN \<le> n_executed_volume n" "n_executed_volume n \<le> n_volume n"
    "n_cost n = float_mul (n_price n) (n_executed_volume n)"
    "n_fee n = float_mul (round_double (26 / 10000)) (n_cost n)"
    using plo phi vlo vhi elo ehi by (simp_all add: n_def)
  ultimately show ?thesis using r by blast
qed

lemma gen_random_closed_order_returns:
  assumes "closed_order_numbers Z R s = Inr (n, s5)"
  shows "\<exists>d st s'. 3 \<le> d \<and> d \<le> 8 \<and> st \<in> set OVER_ORDER_STATUSES
     \<and> gen_random_closed_order Z R s = Inr (closed_order_dict n d st, s')"
proof -
  obtain decimals s6 where d: "randint R 3 8 s5 = Inr (decimals, s6)" "3 \<le> decimals" "decimals \<le> 8"
    using randint_returns[of 3 8 R s5] by auto
  have ne: "OVER_ORDER_STATUSES \<noteq> []" by (simp add: OVER_ORDER_STATUSES_def)
  obtain st s7 where st: "choice R OVER_ORDER_STATUSES s6 = Inr (st, s7)" "st \<in> set OVER_ORDER_STATUSES"
    using choice_returns[OF ne, of R s6] by blast
  have "3 \<le> nat decimals" "nat decimals \<le> 8" using d(2,3) by linarith+
  moreover have "gen_random_closed_order Z R s = Inr (closed_order_dict n (nat decimals) st, s7)"
    by (simp add: gen_random_closed_order_def assms d(1) st(1))
  ultimately show ?thesis using st(2) by blast
qed

text \<open>
  Both timestamps of a record lie in the window, closed at both ends, and the close
  timestamp is at or after the open timestamp rounded to microseconds, the start of the
  second draw.
\<close>

lemma closed_order_timestamps_in_window:
  "\<exists>r s'. gen_random_closed_order Z R s = Inr (r, s')
     \<and> timestamp Z (START Z) = Inr (timestamp_value (START Z))
     \<and> timestamp Z (END Z) = Inr (timestamp_value (END Z))
     \<and> timestamp_value (START Z) \<le> opentm r \<and> opentm r \<le> timestamp_value (END Z)
     \<and> timestamp_value (fromtimestamp (opentm r)) \<le> closetm r
     \<and> timestamp_value (START Z) \<le> closetm r \<and> closetm r \<le> timestamp_value (END Z)"
proof -
  obtain n s5 where n: "closed_order_numbers Z R s = Inr (n, s5)"
    and b: "timestamp_value (START Z) \<le> n_open n" "n_open n \<le> timestamp_value (END Z)"
      "timestamp_value (fromtimestamp (n_open n)) \<le> n_end n"
      "timestamp_value (START Z) \<le> n_end n" "n_end n \<le> timestamp_value (END Z)"
    using closed_order_numbers_returns[of Z R s] by blast
  obtain d st s' where g: "gen_random_closed_order Z R s = Inr (closed_order_dict n d st, s')"
    using gen_random_closed_order_returns[OF n] by blast
  have le: "posix_seconds (START Z) \<le> posix_seconds (END Z)"
    using utcoffset_range[of "zone_offset_2020 Z"] utcoffset_range[of "zone_offset_2024 Z"]
    by (simp add: START_def END_def)
  have S: "timestamp Z (START Z) = Inr (timestamp_value (START Z))"
    by (rule timestamp_converts[OF window_converts[OF order_refl le]])
  have E: "timestamp Z (END Z) = Inr (timestamp_value (END Z))"
    by (rule timestamp_converts[OF window_converts[OF le order_refl]])
  have o: "opentm (closed_order_dict n d st) = n_open n"
    and c: "closetm (closed_order_dict n d st) = n_end n"
    by (simp_all add: closed_order_dict_def)
  show ?thesis
    using g S E b unfolding o[symmetric] c[symmetric] by blast
qed

section \<open>Facts about sources that draw the same numbers\<close>

lemma same_draws_refl: "same_draws R R (=)"
  by (simp add: same_draws_def)

lemma same_draws_random:
  assumes "same_draws R1 R2 rel" and "rel s t"
  shows "fst (random R1 s) = fst (random R2 t)" and "rel (snd (random R1 s)) (snd (random R2 t))"
  using assms by (simp_all add: same_draws_def)

lemma same_draws_randbelow:
  assumes "same_draws R1 R2 rel" and "rel s t"
  shows "fst (randbelow R1 n s) = fst (randbelow R2 n t)"
    and "rel (snd (randbelow R1 n s)) (snd (randbelow R2 n t))"
  using assms by (simp_all add: same_draws_def)

lemma same_result_cases:
  assumes "rel_sum (=) (rel_prod (=) rel) x y"
  obtains e where "x = Inl e" and "y = Inl e"
  | a s t where "x = Inr (a, s)" and "y = Inr (a, t)" and "rel s t"
  using assms by (cases x; cases y) auto

lemma same_draws_uniform:
  assumes "same_draws R1 R2 rel" and "rel s t"
  shows "fst (uniform R1 a b s) = fst (uniform R2 a b t)"
    and "rel (snd (uniform R1 a b s)) (snd (uniform R2 a b t))"
  using same_draws_random[OF assms] by (simp_all add: uniform_def split_beta)

lemma same_draws_randint:
  assumes "same_draws R1 R2 rel" and "rel s t"
  shows "rel_sum (=) (rel_prod (=) rel) (randint R1 a b s) (randint R2 a b t)"
  using same_draws_randbelow[OF assms, of "nat (b + 1 - a)"]
  by (simp add: randint_def split_beta)

lemma same_draws_choice:
  assumes "same_draws R1 R2 rel" and "rel s t"
  shows "rel_sum (=) (rel_prod (=) rel) (choice R1 seq s) (choice R2 seq t)"
  using same_draws_randbelow[OF assms, of "length seq"]
  by (simp add: choice_def split_beta)

lemma same_draws_choices:
  assumes "same_draws R1 R2 rel" and "rel s t"
  shows "rel_sum (=) (rel_prod (=) rel) (choices R1 population k s) (choices R2 population k t)"
  using assms(2)
proof (induction k arbitrary: s t)
  case 0
  then show ?case by simp
next
  case (Suc k)
  note r = same_draws_random[OF assms(1) Suc.prems]
  have "rel_sum (=) (rel_prod (=) rel) (choices R1 population k (snd (random R1 s)))
      (choices R2 population k (snd (random R2 t)))"
    by (rule Suc.IH[OF r(2)])
  then show ?case
  proof (cases rule: same_result_cases)
    case (1 e)
    then show ?thesis by (simp add: split_beta Let_def r(1))
  next
    case (2 xs s' t')
    then show ?thesis by (simp add: split_beta Let_def r(1))
  qed
qed

lemma same_draws_gen_order_id:
  assumes "same_draws R1 R2 rel" and "rel s t"
  shows "rel_sum (=) (rel_prod (=) rel) (gen_order_id R1 s) (gen_order_id R2 t)"
  using same_draws_choices[OF assms, where population = UPPER_ALPHA_NUMERIC and k = 6]
proof (cases rule: same_result_cases)
  case (1 e)
  then show ?thesis by (simp add: gen_order_id_def gen_segment_def)
next
  case a: (2 a s1 t1)
  show ?thesis
    using same_draws_choices[OF assms(1) a(3), where population = UPPER_ALPHA_NUMERIC and k = 5]
  proof (cases rule: same_result_cases)
    case (1 e)
    then show ?thesis using a(1,2) by (simp add: gen_order_id_def gen_segment_def)
  next
    case b: (2 b s2 t2)
    show ?thesis
      using same_draws_choices[OF assms(1) b(3), where population = UPPER_ALPHA_NUMERIC and k = 6]
    proof (cases rule: same_result_cases)
      case (1 e)
      then show ?thesis using a(1,2) b(1,2) by (simp add: gen_order_id_def gen_segment_def)
    next
      case c: (2 c s3 t3)
      then show ?thesis using a(1,2) b(1,2) by (simp add: gen_order_id_def gen_segment_def)
    qed
  qed
qed

lemma same_draws_transfer_identifiers:
  assumes "same_draws R1 R2 rel" and "rel s t"
  shows "rel_sum (=) (rel_prod (=) rel) (gen_random_kraken_transfer_identifiers R1 n s)
           (gen_random_kraken_transfer_identifiers R2 n t)"
  using assms(2)
proof (induction n arbitrary: s t)
  case 0
  then show ?case by simp
next
  case (Suc n)
  show ?case
    using same_draws_choices[OF assms(1) Suc.prems, where population = ALL_ALPHA_NUMERIC and k = 7]
  proof (cases rule: same_result_cases)
    case (1 e)
    then show ?thesis by (simp add: gen_segment_transfer_def)
  next
    case a: (2 a s1 t1)
    show ?thesis
      using same_draws_choices[OF assms(1) a(3), where population = ALL_ALPHA_NUMERIC and k = 22]
    proof (cases rule: same_result_cases)
      case (1 e)
      then show ?thesis using a(1,2) by (simp add: gen_segment_transfer_def)
    next
      case b: (2 b s2 t2)
      show ?thesis
        using Suc.IH[OF b(3)]
      proof (cases rule: same_result_cases)
        case (1 e)
        then show ?thesis using a(1,2) b(1,2) by (simp add: gen_segment_transfer_def)
      next
        case xs: (2 xs s3 t3)
        then show ?thesis using a(1,2) b(1,2) by (simp add: gen_segment_transfer_def)
      qed
    qed
  qed
qed

lemma same_draws_gen_random_timestamp:
  assumes "same_draws R1 R2 rel" and "rel s t"
  shows "rel_sum (=) (rel_prod (=) rel) (gen_random_timestamp Z R1 start end s)
           (gen_random_timestamp Z R2 start end t)"
  using same_draws_random[OF assms]
  by (auto simp: gen_random_timestamp_def split_beta Let_def split: sum.splits)

lemma same_draws_closed_order_numbers:
  assumes "same_draws R1 R2 rel" and "rel s t"
  shows "rel_sum (=) (rel_prod (=) rel) (closed_order_numbers Z R1 s) (closed_order_numbers Z R2 t)"
  using same_draws_gen_random_timestamp[OF assms, of Z "START Z" "END Z"]
proof (cases rule: same_result_cases)
  case (1 e)
  then show ?thesis by (simp add: closed_order_numbers_def)
next
  case (2 opn s1 t1)
  show ?thesis
    using same_draws_gen_random_timestamp[OF assms(1) 2(3), of Z "fromtimestamp opn" "END Z"]
  proof (cases rule: same_result_cases)
    case (1 e)
    then show ?thesis using 2(1,2) by (simp add: closed_order_numbers_def)
  next
    case inner: (2 cls s2 t2)
    note p = same_draws_uniform[OF assms(1) inner(3), of PRICE_MIN PRICE_MAX]
    note v = same_draws_uniform[OF assms(1) p(2), of VOLUME_MIN VOLUME_MAX]
    note e = same_draws_uniform[OF assms(1) v(2), of VOLUME_MIN "fst (uniform R2 VOLUME_MIN VOLUME_MAX (snd (uniform R2 PRICE_MIN PRICE_MAX t2)))"]
    show ?thesis
      using 2(1,2) inner(1,2) p v e
      by (simp add: closed_order_numbers_def split_beta Let_def)
  qed
qed

lemma same_draws_gen_random_closed_order:
  assumes "same_draws R1 R2 rel" and "rel s t"
  shows "rel_sum (=) (rel_prod (=) rel) (gen_random_closed_order Z R1 s)
           (gen_random_closed_order Z R2 t)"
  using same_draws_closed_order_numbers[OF assms, of Z]
proof (cases rule: same_result_cases)
  case (1 e)
  then show ?thesis by (simp add: gen_random_closed_order_def)
next
  case (2 n s5 t5)
  show ?thesis
    using same_draws_randint[OF assms(1) 2(3), of 3 8]
  proof (cases rule: same_result_cases)
    case (1 e)
    then show ?thesis using 2(1,2) by (simp add: gen_random_closed_order_def)
  next
    case d: (2 decimals s6 t6)
    show ?thesis
      using same_draws_choice[OF assms(1) d(3), of OVER_ORDER_STATUSES]
    proof (cases rule: same_result_cases)
      case (1 e)
      then show ?thesis using 2(1,2) d(1,2) by (simp add: gen_random_closed_order_def)
    next
      case st: (2 st s7 t7)
      then show ?thesis using 2(1,2) d(1,2) by (simp add: gen_random_closed_order_def)
    qed
  qed
qed

lemma returned_same:
  assumes "rel_sum (=) (rel_prod (=) rel) x y"
  shows "returned x = returned y"
  using assms by (cases rule: same_result_cases) (simp_all add: returned_def)

section \<open>The timestamp generator\<close>

text \<open>
  Claim C1 states that the result lies in the half-open interval from \<open>start.timestamp()\<close>
  to \<open>end.timestamp()\<close> whenever \<open>start \<le> end\<close>. The strict upper bound fails twice. In UTC,
  on the window of constants.py, whose ends have the timestamps 1577836800 and 1704067200,
  and with the largest draw \<open>1 - 2\<^sup>-\<^sup>5\<^sup>3\<close> of \<open>random()\<close>, the sum \<open>start.timestamp() + rand\<close>
  rounds up to \<open>end.timestamp()\<close>; and when \<open>start\<close> equals \<open>end\<close> the result is
  \<open>start.timestamp()\<close>, which is not below \<open>end.timestamp()\<close>.
\<close>

theorem gen_random_timestamp_not_half_open:
  "timestamp utc (START utc) = Inr 1577836800
   \<and> timestamp utc (END utc) = Inr 1704067200
   \<and> returned (gen_random_timestamp utc replay (START utc) (END utc) [9007199254740991])
       = Inr 1704067200
   \<and> returned (gen_random_timestamp utc replay (START utc) (START utc) [0]) = Inr 1577836800"
  by code_simp

text \<open>
  Claim C1, amended: whenever \<open>start.timestamp()\<close> and \<open>end.timestamp()\<close> are defined and the
  first is at most the second, the call returns, and the result lies in the closed interval
  between the two: it is at least \<open>start.timestamp()\<close> and at most \<open>end.timestamp()\<close>. The
  order of the two datetimes is read on the timestamps, the only thing the function takes
  from them; by \<open>timestamp_mono\<close> the timestamps of valid datetimes are ordered as the
  datetimes are. When one of the two conversions raises, so does the call, by
  \<open>gen_random_timestamp_raises\<close>.
\<close>

theorem gen_random_timestamp_closed_interval:
  "timestamp Z start = Inr a \<Longrightarrow> timestamp Z end = Inr b \<Longrightarrow> a \<le> b \<Longrightarrow>
     \<exists>r s'. gen_random_timestamp Z R start end s = Inr (r, s') \<and> a \<le> r \<and> r \<le> b"
  by (rule gen_random_timestamp_bounds)

theorem gen_random_timestamp_closed_interval_witness:
  "timestamp utc (START utc) = Inr 1577836800
   \<and> timestamp utc (END utc) = Inr 1704067200
   \<and> (1577836800 :: rat) \<le> 1704067200
   \<and> (\<exists>r s'. gen_random_timestamp utc replay (START utc) (END utc) [4503599627370496] = Inr (r, s')
          \<and> 1577836800 \<le> r \<and> r \<le> 1704067200)
   \<and> gen_random_timestamp utc replay (START utc) (END utc) [4503599627370496]
       = Inr (1640952000, [])"
proof -
  have a: "timestamp utc (START utc) = Inr 1577836800" by code_simp
  have b: "timestamp utc (END utc) = Inr 1704067200" by code_simp
  have le: "(1577836800 :: rat) \<le> 1704067200" by simp
  have v: "gen_random_timestamp utc replay (START utc) (END utc) [4503599627370496]
      = Inr (1640952000, [])"
    by code_simp
  show ?thesis
    using a b le v gen_random_timestamp_closed_interval[OF a b le, of replay "[4503599627370496]"]
    by simp
qed

text \<open>
  Claim C10 states that on the degenerate interval, where \<open>start\<close> and \<open>end\<close> are the same
  datetime, \<open>gen_random_timestamp\<close> always returns \<open>start.timestamp()\<close> rather than failing.
  It fails when \<open>start.timestamp()\<close> does: \<open>datetime.min\<close>, the first instant of year 1, is
  a datetime, and in UTC its \<open>timestamp()\<close> raises \<open>ValueError\<close>, because the conversion looks
  one day back, before the first year. So does the call with \<open>datetime.min\<close> as both \<open>start\<close>
  and \<open>end\<close>.
\<close>

theorem gen_random_timestamp_degenerate_raises:
  "timestamp utc \<lparr>posix_seconds = - 62135596800, microsecond = 0\<rparr> = Inl ValueError
   \<and> gen_random_timestamp utc replay \<lparr>posix_seconds = - 62135596800, microsecond = 0\<rparr>
         \<lparr>posix_seconds = - 62135596800, microsecond = 0\<rparr> [0]
       = Inl ValueError"
  by code_simp

text \<open>
  Claim C10, amended: on the degenerate interval the call does what \<open>start.timestamp()\<close>
  does, whatever the random source draws and in every zone. When \<open>start.timestamp()\<close>
  returns, the call returns exactly that float: the difference is zero, the scaled draw is
  zero, and adding zero to a float leaves it unchanged. When \<open>start.timestamp()\<close> raises,
  the call raises the same exception.
\<close>

theorem gen_random_timestamp_degenerate:
  "returned (gen_random_timestamp Z R d d s) = timestamp Z d"
proof (cases "timestamp Z d")
  case (Inl e)
  then show ?thesis by (simp add: gen_random_timestamp_def returned_def)
next
  case (Inr t)
  have "is_double t" using timestamp_Inr[OF Inr] is_double_timestamp_value by simp
  then have "round_double t = t" by (rule round_double_fixed)
  then have "float_add t (float_mul (fst (random R s)) (float_sub t t)) = t"
    by (simp add: float_add_def float_mul_def float_sub_def round_double_def)
  then show ?thesis
    using gen_random_timestamp_value[OF Inr Inr, of R s] Inr by (simp add: returned_def)
qed

section \<open>The identifier generator\<close>

text \<open>
  Claim C8. Every call of \<open>gen_order_id\<close> returns, and the string it returns matches
  \<open>[A-Z0-9]{6}-[A-Z0-9]{5}-[A-Z0-9]{6}\<close>: three segments of lengths 6, 5 and 6 over the
  uppercase letters and digits, separated by dashes. The index \<open>floor(random() * 36.0)\<close>
  never reaches 36, because the float product of a draw below one with 36 stays below 36.
\<close>

theorem gen_order_id_pattern:
  "\<exists>oid s'. gen_order_id R s = Inr (oid, s') \<and> matches_order_id oid"
proof -
  obtain a s1 where a: "gen_segment R 6 s = Inr (a, s1)" "length a = 6" "list_all upper_alnum a"
    using gen_segment_returns[of R 6 s] by blast
  obtain b s2 where b: "gen_segment R 5 s1 = Inr (b, s2)" "length b = 5" "list_all upper_alnum b"
    using gen_segment_returns[of R 5 s1] by blast
  obtain c s3 where c: "gen_segment R 6 s2 = Inr (c, s3)" "length c = 6" "list_all upper_alnum c"
    using gen_segment_returns[of R 6 s2] by blast
  have "gen_order_id R s = Inr (a @ ''-'' @ b @ ''-'' @ c, s3)"
    by (simp add: gen_order_id_def a(1) b(1) c(1))
  moreover have "matches_order_id (a @ ''-'' @ b @ ''-'' @ c)"
    by (rule matches_order_id_segments[OF a(2) b(2) c(2) a(3) b(3) c(3)])
  ultimately show ?thesis by blast
qed

section \<open>The closed-order generator\<close>

text \<open>
  Claim C2 states that the cost is exactly the price times the executed volume, the fee
  exactly 0.0026 times the cost, and that the \<open>cost\<close> and \<open>fee\<close> strings are those products
  rounded to the precision of the record. As numbers, the three are not so. In UTC, on a
  source whose five draws of \<open>random()\<close> are 0, 0, 0.25, 0.5 and 0.5, followed by the
  precision 8, the price is 12500.000075 and the executed volume 250.075, each as the
  nearest float; the cost that the code computes is not the product of the two, the fee is
  not 26/10000 of the cost, and the \<open>cost\<close> string of the record is \<open>3125937.51875563\<close>
  where the product of the two numbers, rounded to 8 decimals, is \<open>3125937.51875562\<close>.
\<close>

theorem closed_order_cost_not_exact_product:
  "map_sum id (\<lambda>(n, s5). (n_cost n = n_price n * n_executed_volume n,
                           n_fee n = 26 / 10000 * n_cost n,
                           format (n_price n * n_executed_volume n) 8))
     (closed_order_numbers utc replay
        [0, 0, 2251799813685248, 4503599627370496, 4503599627370496, 5, 0])
     = Inr (False, False, ''3125937.51875562'')
   \<and> map_sum id (\<lambda>(r, s'). (price r, vol_exec r, cost r))
     (gen_random_closed_order utc replay
        [0, 0, 2251799813685248, 4503599627370496, 4503599627370496, 5, 0])
     = Inr (''12500.00007500'', ''250.07500000'', ''3125937.51875563'')"
  by code_simp

text \<open>
  Claim C2, amended: in every call, the cost is the product of the price and the executed
  volume rounded once to the nearest float, hence within the fraction \<open>2\<^sup>-\<^sup>5\<^sup>3\<close> of that
  product; the fee is the product of the float nearest to 0.0026 and the cost, rounded once
  to the nearest float, hence within the fraction \<open>2\<^sup>-\<^sup>5\<^sup>3\<close> of that product. The \<open>cost\<close>
  and \<open>fee\<close> strings of the record returned are these two floats formatted with the
  precision of the record, and the decimal numbers the strings denote are the two floats
  rounded to that many decimals, ties to even.
\<close>

theorem closed_order_cost_and_fee:
  "\<exists>n s5 r s' d. closed_order_numbers Z R s = Inr (n, s5)
     \<and> gen_random_closed_order Z R s = Inr (r, s')
     \<and> n_cost n = round_double (n_price n * n_executed_volume n)
     \<and> \<bar>n_cost n - n_price n * n_executed_volume n\<bar> \<le> n_price n * n_executed_volume n / 2 ^ 53
     \<and> n_fee n = round_double (round_double (26 / 10000) * n_cost n)
     \<and> \<bar>n_fee n - round_double (26 / 10000) * n_cost n\<bar>
         \<le> round_double (26 / 10000) * n_cost n / 2 ^ 53
     \<and> cost r = format (n_cost n) d \<and> fee r = format (n_fee n) d
     \<and> decimal_value (cost r) = round_decimal d (n_cost n)
     \<and> decimal_value (fee r) = round_decimal d (n_fee n)"
proof -
  obtain n s5 where n: "closed_order_numbers Z R s = Inr (n, s5)"
    and p: "PRICE_MIN \<le> n_price n" and e: "VOLUME_MIN \<le> n_executed_volume n"
    and c: "n_cost n = float_mul (n_price n) (n_executed_volume n)"
    and f: "n_fee n = float_mul (round_double (26 / 10000)) (n_cost n)"
    using closed_order_numbers_returns[of Z R s] by blast
  obtain d st s' where d: "3 \<le> d"
    and g: "gen_random_closed_order Z R s = Inr (closed_order_dict n d st, s')"
    using gen_random_closed_order_returns[OF n] by blast
  have pos: "0 < d" using d by simp
  have pe: "0 \<le> n_price n * n_executed_volume n"
    using p e constants_ordered(1,3) by (intro mult_nonneg_nonneg) linarith+
  have c0: "0 \<le> n_cost n" unfolding c float_mul_def using pe by (rule round_double_nonneg)
  have k0: "(0::rat) \<le> round_double (26 / 10000)" by (rule round_double_nonneg) simp
  have kc: "0 \<le> round_double (26 / 10000) * n_cost n" using k0 c0 by simp
  have f0: "0 \<le> n_fee n" unfolding f float_mul_def using kc by (rule round_double_nonneg)
  have ce: "\<bar>n_cost n - n_price n * n_executed_volume n\<bar> \<le> n_price n * n_executed_volume n / 2 ^ 53"
    using round_double_relative[of "n_price n * n_executed_volume n"] pe
    by (simp add: c float_mul_def)
  have fe: "\<bar>n_fee n - round_double (26 / 10000) * n_cost n\<bar>
      \<le> round_double (26 / 10000) * n_cost n / 2 ^ 53"
    using round_double_relative[of "round_double (26 / 10000) * n_cost n"] kc
    by (simp add: f float_mul_def)
  have cs: "cost (closed_order_dict n d st) = format (n_cost n) d"
    and fs: "fee (closed_order_dict n d st) = format (n_fee n) d"
    by (simp_all add: closed_order_dict_def)
  have cv: "decimal_value (cost (closed_order_dict n d st)) = round_decimal d (n_cost n)"
    unfolding cs by (rule decimal_value_format[OF c0 pos])
  have fv: "decimal_value (fee (closed_order_dict n d st)) = round_decimal d (n_fee n)"
    unfolding fs by (rule decimal_value_format[OF f0 pos])
  have c': "n_cost n = round_double (n_price n * n_executed_volume n)"
    and f': "n_fee n = round_double (round_double (26 / 10000) * n_cost n)"
    using c f by (simp_all add: float_mul_def)
  show ?thesis
    using n g c' ce f' fe cs fs cv fv by blast
qed

text \<open>
  Claim C3 states that the close timestamp of every record is at or after its open
  timestamp, both inside the window. The code passes \<open>datetime.fromtimestamp(open)\<close> as
  the start of the second draw, and a datetime holds whole microseconds: the open timestamp
  is rounded to the nearest microsecond before the close timestamp is drawn from it. Run in
  UTC on a source whose first two draws of \<open>random()\<close> are \<open>17 / 2\<^sup>5\<^sup>3\<close> and \<open>0\<close>, the
  generator opens the order \<open>2\<^sup>-\<^sup>2\<^sup>2\<close> seconds after the start of the window and closes it at
  the start of the window, before it opened. The rest of the claim holds in every zone, by
  \<open>closed_order_timestamps_in_window\<close>: both timestamps lie between the timestamps of the
  two ends of the window, and the close timestamp is at or after the open timestamp rounded
  to microseconds.
\<close>

theorem closed_order_closes_before_opening:
  "(case gen_random_closed_order utc replay [17, 0, 0, 0, 0, 0, 0] of
      Inl e \<Rightarrow> None
    | Inr (r, s') \<Rightarrow> Some (opentm r, closetm r, closetm r < opentm r))
   = Some (1577836800 + 1 / 2 ^ 22, 1577836800, True)"
  by code_simp

text \<open>
  Claim C4. Every call returns, the executed volume drawn is at least \<open>VOLUME_MIN\<close>, the
  float \<open>0.1\<close>, and at most the requested volume drawn before it; the record returned holds
  the two formatted with its precision. The interval is closed at both ends: the bounds are
  those of \<open>random.uniform\<close> on floats.
\<close>

theorem closed_order_executed_volume_bounds:
  "\<exists>n s5 r s' d. closed_order_numbers Z R s = Inr (n, s5)
     \<and> gen_random_closed_order Z R s = Inr (r, s')
     \<and> VOLUME_MIN \<le> n_executed_volume n \<and> n_executed_volume n \<le> n_volume n
     \<and> vol r = format (n_volume n) d \<and> vol_exec r = format (n_executed_volume n) d"
proof -
  obtain n s5 where n: "closed_order_numbers Z R s = Inr (n, s5)"
    and e: "VOLUME_MIN \<le> n_executed_volume n" "n_executed_volume n \<le> n_volume n"
    using closed_order_numbers_returns[of Z R s] by blast
  obtain d st s' where g: "gen_random_closed_order Z R s = Inr (closed_order_dict n d st, s')"
    using gen_random_closed_order_returns[OF n] by blast
  have "vol (closed_order_dict n d st) = format (n_volume n) d"
    and "vol_exec (closed_order_dict n d st) = format (n_executed_volume n) d"
    by (simp_all add: closed_order_dict_def)
  then show ?thesis using n g e by blast
qed

text \<open>
  Claim C5. Every call of \<open>gen_random_closed_order\<close> returns a record whose non-random fields
  are the same constants: the reference id is the string \<open>None\<close>, the user reference is 1,
  the start and expire timestamps are 0, the description is the empty dictionary, the stop
  and limit prices are the string \<open>0.00000\<close>, the misc string is empty, the flags are
  \<open>fciq\<close> and the trigger is \<open>index\<close>.
\<close>

theorem closed_order_constant_fields:
  "\<exists>r s'. gen_random_closed_order Z R s = Inr (r, s')
     \<and> refid r = ''None'' \<and> userref r = 1 \<and> starttm r = 0 \<and> expiretm r = 0 \<and> descr r = []
     \<and> stopprice r = ''0.00000'' \<and> limitprice r = ''0.00000'' \<and> misc r = []
     \<and> oflags r = ''fciq'' \<and> trigger r = ''index''"
proof -
  obtain n s5 where n: "closed_order_numbers Z R s = Inr (n, s5)"
    using closed_order_numbers_returns[of Z R s] by blast
  obtain d st s' where "gen_random_closed_order Z R s = Inr (closed_order_dict n d st, s')"
    using gen_random_closed_order_returns[OF n] by blast
  then show ?thesis by (simp add: closed_order_dict_def)
qed

text \<open>
  Claim C6. Every record returned has one precision \<open>d\<close> between 3 and 8: its \<open>vol\<close>,
  \<open>vol_exec\<close>, \<open>cost\<close>, \<open>fee\<close> and \<open>price\<close> strings are the five numbers formatted with
  precision \<open>d\<close>, and each has exactly \<open>d\<close> digits after its decimal point.
\<close>

theorem closed_order_precision:
  "\<exists>n s5 r s' d. closed_order_numbers Z R s = Inr (n, s5)
     \<and> gen_random_closed_order Z R s = Inr (r, s') \<and> 3 \<le> d \<and> d \<le> 8
     \<and> vol r = format (n_volume n) d
     \<and> vol_exec r = format (n_executed_volume n) d
     \<and> cost r = format (n_cost n) d
     \<and> fee r = format (n_fee n) d
     \<and> price r = format (n_price n) d
     \<and> fraction_digits (vol r) = Some d \<and> fraction_digits (vol_exec r) = Some d
     \<and> fraction_digits (cost r) = Some d \<and> fraction_digits (fee r) = Some d
     \<and> fraction_digits (price r) = Some d"
proof -
  obtain n s5 where n: "closed_order_numbers Z R s = Inr (n, s5)"
    using closed_order_numbers_returns[of Z R s] by blast
  obtain d st s' where d: "3 \<le> d" "d \<le> 8"
    and g: "gen_random_closed_order Z R s = Inr (closed_order_dict n d st, s')"
    using gen_random_closed_order_returns[OF n] by blast
  have p: "0 < d" using d(1) by simp
  have fd: "fraction_digits (format x d) = Some d" for x
    by (rule fraction_digits_format[OF p])
  have "vol (closed_order_dict n d st) = format (n_volume n) d"
    "vol_exec (closed_order_dict n d st) = format (n_executed_volume n) d"
    "cost (closed_order_dict n d st) = format (n_cost n) d"
    "fee (closed_order_dict n d st) = format (n_fee n) d"
    "price (closed_order_dict n d st) = format (n_price n) d"
    "fraction_digits (vol (closed_order_dict n d st)) = Some d"
    "fraction_digits (vol_exec (closed_order_dict n d st)) = Some d"
    "fraction_digits (cost (closed_order_dict n d st)) = Some d"
    "fraction_digits (fee (closed_order_dict n d st)) = Some d"
    "fraction_digits (price (closed_order_dict n d st)) = Some d"
    by (simp_all add: closed_order_dict_def fd)
  then show ?thesis using n g d by blast
qed

text \<open>
  Claim C7. In every record returned, the status is one of \<open>canceled\<close>, \<open>closed\<close> and
  \<open>expired\<close>, and the cancellation reason is present exactly when the status is
  \<open>canceled\<close>; when present it is the fixed string \<open>User requested\<close>.
\<close>

theorem closed_order_status_and_reason:
  "\<exists>r s'. gen_random_closed_order Z R s = Inr (r, s')
     \<and> status r \<in> {''canceled'', ''closed'', ''expired''}
     \<and> ((reason r \<noteq> None) = (status r = ''canceled''))
     \<and> (reason r = None \<or> reason r = Some ''User requested'')"
proof -
  obtain n s5 where n: "closed_order_numbers Z R s = Inr (n, s5)"
    using closed_order_numbers_returns[of Z R s] by blast
  obtain d st s' where st: "st \<in> set OVER_ORDER_STATUSES"
    and g: "gen_random_closed_order Z R s = Inr (closed_order_dict n d st, s')"
    using gen_random_closed_order_returns[OF n] by blast
  have "st \<in> {''canceled'', ''closed'', ''expired''}"
    using st by (simp add: OVER_ORDER_STATUSES_def)
  then show ?thesis using g by (simp add: closed_order_dict_def)
qed

section \<open>Determinism under a fixed seed\<close>

text \<open>
  Claim C9 states that the output of each generator is a function of the state of the
  random source: two calls made after seeding with the same seed return the same. For
  \<open>gen_random_closed_order\<close> the output is also a function of the zone of the process,
  through the naive datetimes \<open>START\<close> and \<open>END\<close>: after the same seed, on the same source,
  the order opens at 1577836800 in UTC and at 1577833200 in a zone one hour east of it.
\<close>

theorem closed_order_depends_on_zone:
  "map_sum id opentm (returned (seeded_run replay 7 (gen_random_closed_order utc replay) []))
     = Inr 1577836800
   \<and> map_sum id opentm
       (returned (seeded_run replay 7 (gen_random_closed_order (fixed_zone 3600) replay) []))
     = Inr 1577833200"
  by code_simp

text \<open>
  Claim C9, amended: for each of the four generators, two calls with the same arguments
  in the same zone, each made right after seeding a random source with the same seed,
  return the same output or raise the same exception, whatever the sources had drawn
  before: the output is a function of the numbers that the source draws after the seed, of
  the arguments and of the zone. The two sources need not be the same, nor their states
  equal: it is enough that some relation between their states, which holds after seeding
  both with the same seed, makes \<open>random()\<close> and \<open>_randbelow(n)\<close> return the same numbers
  and holds again after each draw.
\<close>

theorem generators_output_from_draws:
  "same_draws R1 R2 rel \<Longrightarrow> rel (seed R1 a s1) (seed R2 a s2) \<Longrightarrow>
     returned (seeded_run R1 a (gen_order_id R1) s1)
       = returned (seeded_run R2 a (gen_order_id R2) s2)
     \<and> returned (seeded_run R1 a (gen_random_kraken_transfer_identifiers R1 n) s1)
       = returned (seeded_run R2 a (gen_random_kraken_transfer_identifiers R2 n) s2)
     \<and> returned (seeded_run R1 a (gen_random_timestamp Z R1 start end) s1)
       = returned (seeded_run R2 a (gen_random_timestamp Z R2 start end) s2)
     \<and> returned (seeded_run R1 a (gen_random_closed_order Z R1) s1)
       = returned (seeded_run R2 a (gen_random_closed_order Z R2) s2)"
  unfolding seeded_run_def
  by (intro conjI returned_same same_draws_gen_order_id same_draws_transfer_identifiers
      same_draws_gen_random_timestamp same_draws_gen_random_closed_order)

theorem generators_output_from_draws_witness:
  "same_draws replay replay (=)
   \<and> seed replay 7 [1] = seed replay 7 [2, 3]
   \<and> returned (seeded_run replay 7 (gen_order_id replay) [1])
       = returned (seeded_run replay 7 (gen_order_id replay) [2, 3])
   \<and> returned (seeded_run replay 7 (gen_random_closed_order utc replay) [1])
       = returned (seeded_run replay 7 (gen_random_closed_order utc replay) [2, 3])
   \<and> returned (seeded_run replay 7 (gen_order_id replay) [1]) = Inr ''AAAAAA-AAAAA-AAAAAA''"
proof -
  have d: "same_draws replay replay (=)" by (rule same_draws_refl)
  have s: "seed replay 7 [1] = seed replay 7 [2, 3]" by (simp add: seed_def)
  have v: "returned (seeded_run replay 7 (gen_order_id replay) [1]) = Inr ''AAAAAA-AAAAA-AAAAAA''"
    by code_simp
  show ?thesis
    using d s v generators_output_from_draws[OF d s, of 0 utc "START utc" "END utc"]
    by simp
qed

end
